theory Spec2Isabelle
  imports Complex_Main "HOL-Library.Multiset"
begin

section \<open>Active-set QP solver kernel (casadi\_qp.hpp): data model\<close>

text \<open>
  The kernel is templated over the number type \<open>T1\<close>; every instantiation uses IEEE
  doubles. The embedding takes the finite values to be real numbers. In the primal
  line search (\<open>casadi_qp_zero_blocking\<close>, \<open>casadi_qp_primal_blocking\<close>), where the
  accepted step length is a rounded quotient, every arithmetic operation of the source
  is the exact operation followed by a rounding \<open>rnd\<close>, a parameter of these functions;
  \<open>fl64\<close> below is the rounding of doubles. The other functions are modelled with
  exact arithmetic. The bound vectors \<open>lbz\<close> and \<open>ubz\<close> are the only data whose infinite
  entries the code inspects (\<open>isinf\<close>), so their entries are of type \<open>xreal\<close>: a real
  number or one of the two infinities. An operation that takes a bound and a finite
  number is written out below for the three cases. Where the C code would store an
  infinity or a NaN into a variable that the model keeps as a real number, the modelled
  function returns \<open>None\<close>: the run has left the finite reals and is not followed further.
\<close>

datatype xreal = MInf | Fin real | PInf

fun isinf :: "xreal \<Rightarrow> bool" where
  "isinf (Fin r) = False"
| "isinf MInf = True"
| "isinf PInf = True"

fun x_add :: "xreal \<Rightarrow> real \<Rightarrow> xreal" where
  "x_add (Fin a) e = Fin (a + e)"
| "x_add MInf e = MInf"
| "x_add PInf e = PInf"

fun x_sub :: "xreal \<Rightarrow> real \<Rightarrow> xreal" where
  "x_sub (Fin a) e = Fin (a - e)"
| "x_sub MInf e = MInf"
| "x_sub PInf e = PInf"

fun r_sub_x :: "real \<Rightarrow> xreal \<Rightarrow> xreal" where
  "r_sub_x e (Fin a) = Fin (e - a)"
| "r_sub_x e MInf = PInf"
| "r_sub_x e PInf = MInf"

fun x_lt :: "xreal \<Rightarrow> xreal \<Rightarrow> bool" where
  "x_lt (Fin a) (Fin b) = (a < b)"
| "x_lt (Fin a) PInf = True"
| "x_lt (Fin a) MInf = False"
| "x_lt MInf (Fin b) = True"
| "x_lt MInf PInf = True"
| "x_lt MInf MInf = False"
| "x_lt PInf b = False"

definition x_le :: "xreal \<Rightarrow> xreal \<Rightarrow> bool" where
  "x_le a b = (a = b \<or> x_lt a b)"

fun x_fin :: "xreal \<Rightarrow> real option" where
  "x_fin (Fin a) = Some a"
| "x_fin a = None"

text \<open>A rounding leaves the infinities as they are.\<close>

fun x_rnd :: "(real \<Rightarrow> real) \<Rightarrow> xreal \<Rightarrow> xreal" where
  "x_rnd rnd (Fin a) = Fin (rnd a)"
| "x_rnd rnd MInf = MInf"
| "x_rnd rnd PInf = PInf"

text \<open>
  The rounding of IEEE doubles in the default mode: to the nearest number with a
  significand of 53 bits, a tie going to the even significand. \<open>normal\<close> scales the
  absolute value by powers of two until it lies between \<open>2^52\<close> and \<open>2^53\<close>, where the
  doubles are the integers; its first argument bounds the number of scalings and
  covers the exponents of doubles. The exponent range is not bounded: overflow and
  gradual underflow are not modelled.
\<close>

definition round_even :: "real \<Rightarrow> int" where
  "round_even x =
     (let n = \<lfloor>x\<rfloor>; r = x - of_int n
      in if r < 1 / 2 then n else if r > 1 / 2 then n + 1 else if even n then n else n + 1)"

fun normal :: "nat \<Rightarrow> real \<Rightarrow> int \<Rightarrow> real \<times> int" where
  "normal 0 m e = (m, e)"
| "normal (Suc k) m e =
     (if m < 2 ^ 52 then normal k (2 * m) (e - 1)
      else if 2 ^ 53 \<le> m then normal k (m / 2) (e + 1)
      else (m, e))"

definition fl64 :: "real \<Rightarrow> real" where
  "fl64 x =
     (if x = 0 then 0
      else case normal 2200 \<bar>x\<bar> 0 of
             (m, e) \<Rightarrow> sgn x * of_int (round_even m) *
                        (if 0 \<le> e then 2 ^ nat e else 1 / 2 ^ nat (- e)))"

text \<open>
  A sparsity pattern is the integer array of the source: \<open>sp ! 0\<close> rows, \<open>sp ! 1\<close>
  columns, then the column offsets and the row indices. The entries are never negative
  and are natural numbers here. The kernel takes the column offsets at \<open>sp + 2\<close> and
  the row indices \<open>n + 1\<close> entries later, with \<open>n\<close> the column count it expects
  (\<open>nx\<close> for A and H, \<open>na\<close> for the transpose of A).
\<close>

definition colind :: "nat list \<Rightarrow> nat \<Rightarrow> nat" where
  "colind sp k = sp ! (2 + k)"

definition rowind :: "nat list \<Rightarrow> nat \<Rightarrow> nat \<Rightarrow> nat" where
  "rowind sp n k = sp ! (2 + n + 1 + k)"

text \<open>
  \<open>casadi_qp_prob\<close>, with the fields the modelled functions read. Left out:
  \<open>inf\<close> and \<open>print_iter\<close> (read by the scale step and the driver only) and the
  symbolic QR factors, which only the QR routines consume.
\<close>

record casadi_qp_prob =
  p_nx :: nat
  p_na :: nat
  p_nz :: nat
  p_dmin :: real
  p_du_to_pr :: real
  p_sp_a :: "nat list"
  p_sp_h :: "nat list"
  p_sp_at :: "nat list"

text \<open>The message buffer holds the last formatted event; the model keeps the event.\<close>

datatype qp_msg =
    MsgNone
  | MsgAdded int
  | MsgRemoved int
  | MsgLbzViolated nat
  | MsgUbzViolated nat
  | MsgEnforcingLbz nat
  | MsgEnforcingUbz nat
  | MsgRegularity int int
  | MsgAlsoFlip int int int real
  | MsgCannotEnforce int int

text \<open>
  \<open>casadi_qp_data\<close>. The arrays are lists; the flags \<open>neverzero\<close>, \<open>neverupper\<close>,
  \<open>neverlower\<close> hold the results of comparisons and are lists of booleans. Left out:
  the numeric KKT matrix and QR factors, \<open>mina\<close> and \<open>imina\<close>, which only the KKT
  assembly and the QR routines touch.
\<close>

record casadi_qp_data =
  d_f :: real
  d_nz_a :: "real list"
  d_nz_h :: "real list"
  d_g :: "real list"
  d_z :: "real list"
  d_lbz :: "xreal list"
  d_ubz :: "xreal list"
  d_infeas :: "real list"
  d_tinfeas :: "real list"
  d_lam :: "real list"
  d_w :: "real list"
  d_dz :: "real list"
  d_dlam :: "real list"
  d_iw :: "int list"
  d_neverzero :: "bool list"
  d_neverlower :: "bool list"
  d_neverupper :: "bool list"
  d_nz_at :: "real list"
  d_msg :: qp_msg
  d_tau :: real
  d_sing :: int
  d_pr :: real
  d_du :: real
  d_ipr :: int
  d_idu :: int

section \<open>Sparse primitives\<close>

text \<open>
  Modelled from the spec: the dense and sparse primitives (\<open>casadi_fill\<close>,
  \<open>casadi_copy\<close>, \<open>casadi_axpy\<close>, \<open>casadi_scal\<close>, \<open>casadi_dot\<close>, \<open>casadi_mv\<close>,
  \<open>casadi_bilin\<close>, \<open>casadi_trans\<close>) are called by the kernel and defined elsewhere
  in the library. They follow section 4.1 of the specification: compressed-column
  matrices, mat-vec with accumulation in column order.
\<close>

definition casadi_fill :: "real list \<Rightarrow> nat \<Rightarrow> nat \<Rightarrow> real \<Rightarrow> real list" where
  "casadi_fill x off n alpha = fold (\<lambda>i v. v[off + i := alpha]) [0..<n] x"

definition casadi_copy :: "real list \<Rightarrow> nat \<Rightarrow> real list \<Rightarrow> real list" where
  "casadi_copy x n y = fold (\<lambda>i v. v[i := x ! i]) [0..<n] y"

definition casadi_axpy :: "nat \<Rightarrow> real \<Rightarrow> real list \<Rightarrow> real list \<Rightarrow> real list" where
  "casadi_axpy n alpha x y = fold (\<lambda>i v. v[i := v ! i + alpha * x ! i]) [0..<n] y"

definition casadi_scal :: "nat \<Rightarrow> real \<Rightarrow> real list \<Rightarrow> real list" where
  "casadi_scal n alpha x = fold (\<lambda>i v. v[i := alpha * v ! i]) [0..<n] x"

definition casadi_dot :: "nat \<Rightarrow> real list \<Rightarrow> real list \<Rightarrow> real" where
  "casadi_dot n x y = fold (\<lambda>i r. r + x ! i * y ! i) [0..<n] 0"

text \<open>
  \<open>casadi_mv x sp_x y z tr\<close> adds \<open>X y\<close> (or its transpose product) to \<open>z\<close>. The
  vectors are passed with an offset into their array, as the kernel passes
  \<open>d->z + nx\<close>; \<open>y\<close> is read from the array as it is before the call.
\<close>

definition mv_entry ::
  "real list \<Rightarrow> nat list \<Rightarrow> real list \<Rightarrow> nat \<Rightarrow> nat \<Rightarrow> bool \<Rightarrow> nat \<Rightarrow> nat
     \<Rightarrow> real list \<Rightarrow> real list" where
  "mv_entry x sp_x y yoff zoff tr i el v =
     (let r = rowind sp_x (sp_x ! 1) el in
      if tr then v[zoff + i := v ! (zoff + i) + x ! el * y ! (yoff + r)]
      else v[zoff + r := v ! (zoff + r) + x ! el * y ! (yoff + i)])"

definition casadi_mv ::
  "real list \<Rightarrow> nat list \<Rightarrow> real list \<Rightarrow> nat \<Rightarrow> real list \<Rightarrow> nat \<Rightarrow> bool \<Rightarrow> real list" where
  "casadi_mv x sp_x y yoff z zoff tr =
     fold (\<lambda>i. fold (mv_entry x sp_x y yoff zoff tr i) [colind sp_x i..<colind sp_x (i + 1)])
       [0..<sp_x ! 1] z"

definition bilin_entry ::
  "real list \<Rightarrow> nat list \<Rightarrow> real list \<Rightarrow> real list \<Rightarrow> nat \<Rightarrow> nat \<Rightarrow> real \<Rightarrow> real" where
  "bilin_entry a sp_a x y cc el r = r + x ! (rowind sp_a (sp_a ! 1) el) * a ! el * y ! cc"

definition casadi_bilin :: "real list \<Rightarrow> nat list \<Rightarrow> real list \<Rightarrow> real list \<Rightarrow> real" where
  "casadi_bilin a sp_a x y =
     fold (\<lambda>cc. fold (bilin_entry a sp_a x y cc) [colind sp_a cc..<colind sp_a (cc + 1)])
       [0..<sp_a ! 1] 0"

text \<open>
  \<open>casadi_trans x sp_x y sp_y tmp\<close> writes the nonzeros of the transpose into \<open>y\<close>,
  using \<open>tmp\<close> as one write cursor per column of the transpose.
\<close>

definition casadi_trans ::
  "real list \<Rightarrow> nat list \<Rightarrow> real list \<Rightarrow> nat list \<Rightarrow> int list \<Rightarrow> real list \<times> int list" where
  "casadi_trans x sp_x y sp_y tmp =
     (let ncol_x = sp_x ! 1;
          nnz_x = colind sp_x ncol_x;
          ncol_y = sp_y ! 1;
          tmp0 = fold (\<lambda>k t. t[k := int (colind sp_y k)]) [0..<ncol_y] tmp
      in fold (\<lambda>k (v, t).
           let r = rowind sp_x ncol_x k in (v[nat (t ! r) := x ! k], t[r := t ! r + 1]))
           [0..<nnz_x] (y, tmp0))"

section \<open>Reset\<close>

text \<open>
  One pass of the loop of \<open>casadi_qp_reset\<close> for row \<open>i\<close>. The first component is
  true when the pass executes \<open>return 1\<close>. The comparison
  \<open>z[i]-lbz[i] <= ubz[i]-z[i]\<close> is reached with a finite upper bound only.
\<close>

definition reset_row :: "casadi_qp_prob \<Rightarrow> nat \<Rightarrow> casadi_qp_data \<Rightarrow> bool \<times> casadi_qp_data" where
  "reset_row p i d =
     (let nzero = (d_lbz d ! i = d_ubz d ! i);
          nupper = isinf (d_ubz d ! i);
          nlower = isinf (d_lbz d ! i);
          d1 = d\<lparr>d_neverzero := (d_neverzero d)[i := nzero],
                 d_neverupper := (d_neverupper d)[i := nupper],
                 d_neverlower := (d_neverlower d)[i := nlower]\<rparr>
      in if nzero \<and> nupper \<and> nlower then (True, d1)
         else if nzero \<and> d_lam d ! i = 0 then
           (False, d1\<lparr>d_lam := (d_lam d)[i :=
              (if nupper \<or> x_le (r_sub_x (d_z d ! i) (d_lbz d ! i)) (x_sub (d_ubz d ! i) (d_z d ! i))
               then - p_dmin p else p_dmin p)]\<rparr>)
         else if nupper \<and> d_lam d ! i > 0 then
           (False, d1\<lparr>d_lam := (d_lam d)[i := (if nzero then - p_dmin p else 0)]\<rparr>)
         else if nlower \<and> d_lam d ! i < 0 then
           (False, d1\<lparr>d_lam := (d_lam d)[i := (if nzero then p_dmin p else 0)]\<rparr>)
         else (False, d1))"

fun reset_loop :: "casadi_qp_prob \<Rightarrow> nat list \<Rightarrow> casadi_qp_data \<Rightarrow> bool \<times> casadi_qp_data" where
  "reset_loop p [] d = (False, d)"
| "reset_loop p (i # is) d =
     (case reset_row p i d of
        (True, d1) \<Rightarrow> (True, d1)
      | (False, d1) \<Rightarrow> reset_loop p is d1)"

definition casadi_qp_reset :: "casadi_qp_prob \<Rightarrow> casadi_qp_data \<Rightarrow> int \<times> casadi_qp_data" where
  "casadi_qp_reset p d =
     (let d0 = d\<lparr>d_msg := MsgNone, d_tau := 0, d_sing := 0\<rparr> in
      case reset_loop p [0..<p_nz p] d0 of
        (True, d1) \<Rightarrow> (1, d1)
      | (False, d1) \<Rightarrow>
          (case casadi_trans (d_nz_a d1) (p_sp_a p) (d_nz_at d1) (p_sp_at p) (d_iw d1) of
             (nz_at1, iw1) \<Rightarrow> (0, d1\<lparr>d_nz_at := nz_at1, d_iw := iw1\<rparr>)))"

section \<open>Primal and dual error\<close>

text \<open>
  One pass of the loop of \<open>casadi_qp_pr\<close>. The violation \<open>z[i]-ubz[i]\<close> or
  \<open>lbz[i]-z[i]\<close> is infinite when the bound is; the pass then returns \<open>None\<close>.
\<close>

definition pr_step :: "nat \<Rightarrow> casadi_qp_data \<Rightarrow> casadi_qp_data option" where
  "pr_step i d =
     (if x_lt (x_add (d_ubz d ! i) (d_pr d)) (Fin (d_z d ! i)) then
        (case x_fin (r_sub_x (d_z d ! i) (d_ubz d ! i)) of
           None \<Rightarrow> None
         | Some v \<Rightarrow> Some (d\<lparr>d_pr := v, d_ipr := int i\<rparr>))
      else if x_lt (Fin (d_z d ! i)) (x_sub (d_lbz d ! i) (d_pr d)) then
        (case x_fin (x_sub (d_lbz d ! i) (d_z d ! i)) of
           None \<Rightarrow> None
         | Some v \<Rightarrow> Some (d\<lparr>d_pr := v, d_ipr := int i\<rparr>))
      else Some d)"

definition casadi_qp_pr :: "casadi_qp_prob \<Rightarrow> casadi_qp_data \<Rightarrow> casadi_qp_data option" where
  "casadi_qp_pr p d =
     fold (\<lambda>i r. Option.bind r (pr_step i)) [0..<p_nz p] (Some (d\<lparr>d_pr := 0, d_ipr := - 1\<rparr>))"

definition du_step :: "nat \<Rightarrow> casadi_qp_data \<Rightarrow> casadi_qp_data" where
  "du_step i d =
     (if d_infeas d ! i > d_du d then d\<lparr>d_du := d_infeas d ! i, d_idu := int i\<rparr>
      else if d_infeas d ! i < - d_du d then d\<lparr>d_du := - d_infeas d ! i, d_idu := int i\<rparr>
      else d)"

definition casadi_qp_du :: "casadi_qp_prob \<Rightarrow> casadi_qp_data \<Rightarrow> casadi_qp_data" where
  "casadi_qp_du p d = fold du_step [0..<p_nx p] (d\<lparr>d_du := 0, d_idu := - 1\<rparr>)"

section \<open>Choosing the constraint to add or to remove\<close>

text \<open>
  \<open>casadi_qp_pr_index\<close> reads \<open>lam[ipr]\<close>; with \<open>ipr = -1\<close> the read is outside the
  array and the model returns \<open>None\<close>. The result is the returned index, the value
  of \<open>*sign\<close> and the data.
\<close>

definition casadi_qp_pr_index ::
  "casadi_qp_data \<Rightarrow> int \<Rightarrow> (int \<times> int \<times> casadi_qp_data) option" where
  "casadi_qp_pr_index d sign =
     (if d_ipr d < 0 then None
      else let i = nat (d_ipr d) in
        if d_lam d ! i = 0 then
          Some (d_ipr d,
                (if x_lt (Fin (d_z d ! i)) (d_lbz d ! i) then - 1 else 1),
                d\<lparr>d_msg := MsgAdded (d_ipr d)\<rparr>)
        else Some (- 1, sign, d))"

definition casadi_qp_du_check :: "casadi_qp_prob \<Rightarrow> casadi_qp_data \<Rightarrow> nat \<Rightarrow> real" where
  "casadi_qp_du_check p d i =
     (if i < p_nx p then \<bar>d_infeas d ! i - d_lam d ! i\<bar>
      else fold (\<lambda>k new_du.
             max new_du \<bar>d_infeas d ! (rowind (p_sp_at p) (p_na p) k) - d_nz_at d ! k * d_lam d ! i\<bar>)
             [colind (p_sp_at p) (i - p_nx p)..<colind (p_sp_at p) (i - p_nx p + 1)] 0)"

text \<open>
  The sensitivity vector that \<open>casadi_qp_du_index\<close> leaves in \<open>d->w\<close>: a unit entry
  at \<open>idu\<close>, then its product with A in the rows after \<open>nx\<close>. The product reads the
  first \<open>nx\<close> entries and writes behind them.
\<close>

definition du_sens :: "casadi_qp_prob \<Rightarrow> casadi_qp_data \<Rightarrow> real list" where
  "du_sens p d =
     (let w0 = casadi_fill (d_w d) 0 (p_nz p) 0;
          w1 = w0[nat (d_idu d) := (if d_infeas d ! nat (d_idu d) > 0 then - 1 else 1)]
      in casadi_mv (d_nz_a d) (p_sp_a p) w1 0 w1 (p_nx p) False)"

text \<open>One pass of the search loop; the state is \<open>(best_ind, best_w)\<close>.\<close>

definition du_index_step ::
  "casadi_qp_prob \<Rightarrow> casadi_qp_data \<Rightarrow> real list \<Rightarrow> nat \<Rightarrow> int \<times> real \<Rightarrow> int \<times> real" where
  "du_index_step p d w i s =
     (if w ! i = 0 then s
      else if (if w ! i > 0 then d_lam d ! i \<ge> 0 else d_lam d ! i \<le> 0) then s
      else if casadi_qp_du_check p d i > d_du d then s
      else if \<bar>w ! i\<bar> > snd s then (int i, \<bar>w ! i\<bar>)
      else s)"

definition casadi_qp_du_index ::
  "casadi_qp_prob \<Rightarrow> casadi_qp_data \<Rightarrow> int \<Rightarrow> (int \<times> int \<times> casadi_qp_data) option" where
  "casadi_qp_du_index p d sign =
     (if d_idu d < 0 then None
      else let w = du_sens p d;
               best_ind = fst (fold (du_index_step p d w) [0..<p_nz p] (- 1, 0));
               d1 = d\<lparr>d_w := w\<rparr>
        in if best_ind \<ge> 0 then Some (best_ind, 0, d1\<lparr>d_msg := MsgRemoved best_ind\<rparr>)
           else Some (- 1, sign, d1))"

section \<open>Columns of the KKT matrix\<close>

definition kkt_sparse_a_h ::
  "casadi_qp_prob \<Rightarrow> casadi_qp_data \<Rightarrow> nat \<Rightarrow> real list \<Rightarrow> real list" where
  "kkt_sparse_a_h p d i kkt_i =
     (let k1 = fold (\<lambda>k v. v[rowind (p_sp_h p) (p_nx p) k := d_nz_h d ! k])
                 [colind (p_sp_h p) i..<colind (p_sp_h p) (i + 1)] kkt_i
      in fold (\<lambda>k v. v[p_nx p + rowind (p_sp_a p) (p_nx p) k := d_nz_a d ! k])
           [colind (p_sp_a p) i..<colind (p_sp_a p) (i + 1)] k1)"

definition casadi_qp_kkt_vector ::
  "casadi_qp_prob \<Rightarrow> casadi_qp_data \<Rightarrow> real list \<Rightarrow> nat \<Rightarrow> real list" where
  "casadi_qp_kkt_vector p d kkt_i i =
     (let k0 = casadi_fill kkt_i 0 (p_nz p) 0;
          k1 = (if i < p_nx p then kkt_sparse_a_h p d i k0
                else fold (\<lambda>k v. v[rowind (p_sp_at p) (p_na p) k := - d_nz_at d ! k])
                       [colind (p_sp_at p) (i - p_nx p)..<colind (p_sp_at p) (i - p_nx p + 1)] k0)
      in k1[i := k1 ! i - 1])"

definition casadi_qp_kkt_column ::
  "casadi_qp_prob \<Rightarrow> casadi_qp_data \<Rightarrow> real list \<Rightarrow> nat \<Rightarrow> int \<Rightarrow> real list" where
  "casadi_qp_kkt_column p d kkt_i i sign =
     (let k0 = casadi_fill kkt_i 0 (p_nz p) 0 in
      if i < p_nx p then
        (if sign = 0 then kkt_sparse_a_h p d i k0 else k0[i := 1])
      else
        (if sign = 0 then k0[i := - 1]
         else fold (\<lambda>k v. v[rowind (p_sp_at p) (p_na p) k := d_nz_at d ! k])
                [colind (p_sp_at p) (i - p_nx p)..<colind (p_sp_at p) (i - p_nx p + 1)] k0))"

definition casadi_qp_kkt_dot ::
  "casadi_qp_prob \<Rightarrow> casadi_qp_data \<Rightarrow> real list \<Rightarrow> nat \<Rightarrow> int \<Rightarrow> real" where
  "casadi_qp_kkt_dot p d v i sign =
     (if i < p_nx p then
        (if sign = 0 then
           (let r1 = fold (\<lambda>k r. r + v ! (rowind (p_sp_h p) (p_nx p) k) * d_nz_h d ! k)
                       [colind (p_sp_h p) i..<colind (p_sp_h p) (i + 1)] 0
            in fold (\<lambda>k r. r + v ! (p_nx p + rowind (p_sp_a p) (p_nx p) k) * d_nz_a d ! k)
                 [colind (p_sp_a p) i..<colind (p_sp_a p) (i + 1)] r1)
         else v ! i)
      else
        (if sign = 0 then - v ! i
         else fold (\<lambda>k r. r + v ! (rowind (p_sp_at p) (p_na p) k) * d_nz_at d ! k)
                [colind (p_sp_at p) (i - p_nx p)..<colind (p_sp_at p) (i - p_nx p + 1)] 0))"

definition casadi_qp_kkt_dot2 ::
  "casadi_qp_prob \<Rightarrow> casadi_qp_data \<Rightarrow> real list \<Rightarrow> nat \<Rightarrow> real" where
  "casadi_qp_kkt_dot2 p d v i =
     (let r0 = v ! i in
      if i < p_nx p then
        (let r1 = fold (\<lambda>k r. r - v ! (rowind (p_sp_h p) (p_nx p) k) * d_nz_h d ! k)
                    [colind (p_sp_h p) i..<colind (p_sp_h p) (i + 1)] r0
         in fold (\<lambda>k r. r - v ! (p_nx p + rowind (p_sp_a p) (p_nx p) k) * d_nz_a d ! k)
              [colind (p_sp_a p) i..<colind (p_sp_a p) (i + 1)] r1)
      else fold (\<lambda>k r. r + v ! (rowind (p_sp_at p) (p_na p) k) * d_nz_at d ! k)
             [colind (p_sp_at p) (i - p_nx p)..<colind (p_sp_at p) (i - p_nx p + 1)] r0)"

section \<open>Line search\<close>

text \<open>
  \<open>casadi_qp_zero_blocking\<close>. The callers pass addresses for \<open>index\<close> and \<open>sign\<close>;
  the model threads their values. The state of the loop is \<open>(ret, index, sign, d)\<close>.
  The local \<open>dz_max\<close> is set to zero before the loop and never assigned again. The
  differences \<open>lbz[i]-e\<close> and \<open>ubz[i]+e\<close> are rounded.
\<close>

definition zero_blocking_step ::
  "(real \<Rightarrow> real) \<Rightarrow> real \<Rightarrow> nat \<Rightarrow> int \<times> int \<times> int \<times> casadi_qp_data
     \<Rightarrow> int \<times> int \<times> int \<times> casadi_qp_data" where
  "zero_blocking_step rnd e i s =
     (case s of (ret, index, sign, d) \<Rightarrow>
        let dz_max = 0 in
        if - d_dz d ! i > dz_max \<and> x_le (Fin (d_z d ! i)) (x_rnd rnd (x_sub (d_lbz d ! i) e)) then
          (1, int i, - 1, d\<lparr>d_msg := MsgLbzViolated i\<rparr>)
        else if d_dz d ! i > dz_max \<and> x_le (x_rnd rnd (x_add (d_ubz d ! i) e)) (Fin (d_z d ! i)) then
          (1, int i, 1, d\<lparr>d_msg := MsgUbzViolated i\<rparr>)
        else s)"

definition casadi_qp_zero_blocking ::
  "(real \<Rightarrow> real) \<Rightarrow> casadi_qp_prob \<Rightarrow> casadi_qp_data \<Rightarrow> real \<Rightarrow> int \<Rightarrow> int
     \<Rightarrow> int \<times> int \<times> int \<times> casadi_qp_data" where
  "casadi_qp_zero_blocking rnd p d e index sign =
     fold (zero_blocking_step rnd e) [0..<p_nz p] (0, index, sign, d)"

text \<open>
  One pass of the loop of \<open>casadi_qp_primal_blocking\<close> for a row with a nonzero
  step; the state is \<open>(d, index, sign)\<close>. The trial value is the rounded sum of
  \<open>z[i]\<close> and the rounded product \<open>tau*dz[i]\<close>. The new step length is the rounded
  quotient of the rounded distance to the rounded bound by \<open>dz[i]\<close>; with an infinite
  bound it is infinite and the pass returns \<open>None\<close>.
\<close>

definition primal_blocking_step ::
  "(real \<Rightarrow> real) \<Rightarrow> real \<Rightarrow> nat \<Rightarrow> casadi_qp_data \<times> int \<times> int
     \<Rightarrow> (casadi_qp_data \<times> int \<times> int) option" where
  "primal_blocking_step rnd e i s =
     (case s of (d, index, sign) \<Rightarrow>
        let trial_z = rnd (d_z d ! i + rnd (d_tau d * d_dz d ! i)) in
        if d_dz d ! i < 0 \<and> x_lt (Fin trial_z) (x_rnd rnd (x_sub (d_lbz d ! i) e)) then
          (case x_fin (x_rnd rnd (x_sub (x_rnd rnd (x_sub (d_lbz d ! i) e)) (d_z d ! i))) of
             None \<Rightarrow> None
           | Some v \<Rightarrow>
               Some (d\<lparr>d_tau := rnd (v / d_dz d ! i), d_msg := MsgEnforcingLbz i\<rparr>,
                     (if d_lam d ! i < 0 then - 1 else int i), - 1))
        else if d_dz d ! i > 0 \<and> x_lt (x_rnd rnd (x_add (d_ubz d ! i) e)) (Fin trial_z) then
          (case x_fin (x_rnd rnd (x_sub (x_rnd rnd (x_add (d_ubz d ! i) e)) (d_z d ! i))) of
             None \<Rightarrow> None
           | Some v \<Rightarrow>
               Some (d\<lparr>d_tau := rnd (v / d_dz d ! i), d_msg := MsgEnforcingUbz i\<rparr>,
                     (if d_lam d ! i > 0 then - 1 else int i), 1))
        else Some s)"

fun primal_blocking_loop ::
  "(real \<Rightarrow> real) \<Rightarrow> real \<Rightarrow> nat list \<Rightarrow> casadi_qp_data \<times> int \<times> int
     \<Rightarrow> (casadi_qp_data \<times> int \<times> int) option" where
  "primal_blocking_loop rnd e [] s = Some s"
| "primal_blocking_loop rnd e (i # is) s =
     (if d_dz (fst s) ! i = 0 then primal_blocking_loop rnd e is s
      else case primal_blocking_step rnd e i s of
             None \<Rightarrow> None
           | Some s1 \<Rightarrow>
               if d_tau (fst s1) \<le> 0 then Some s1 else primal_blocking_loop rnd e is s1)"

definition casadi_qp_primal_blocking ::
  "(real \<Rightarrow> real) \<Rightarrow> casadi_qp_prob \<Rightarrow> casadi_qp_data \<Rightarrow> real \<Rightarrow> int \<Rightarrow> int
     \<Rightarrow> (casadi_qp_data \<times> int \<times> int) option" where
  "casadi_qp_primal_blocking rnd p d e index sign =
     (case casadi_qp_zero_blocking rnd p d e index sign of (ret, index1, sign1, d1) \<Rightarrow>
        if ret \<noteq> 0 then Some (d1\<lparr>d_tau := 0\<rparr>, index1, sign1)
        else primal_blocking_loop rnd e [0..<p_nz p] (d1, index1, sign1))"

text \<open>
  \<open>casadi_qp_dual_breakpoints\<close>. The search for the insertion point scans the
  positions before the last entry; \<open>find_loc\<close> takes them as a list and the position
  the loop ends at when it does not break.
\<close>

fun find_loc :: "real \<Rightarrow> real list \<Rightarrow> nat list \<Rightarrow> nat \<Rightarrow> nat" where
  "find_loc new_tau tau_list [] fin = fin"
| "find_loc new_tau tau_list (loc # locs) fin =
     (if new_tau < tau_list ! loc then loc else find_loc new_tau tau_list locs fin)"

text \<open>The insertion loop; its state is \<open>(next_tau, next_ind, tau_list, ind_list)\<close>.\<close>

definition insert_step ::
  "nat \<Rightarrow> real \<times> int \<times> real list \<times> int list \<Rightarrow> real \<times> int \<times> real list \<times> int list" where
  "insert_step j s =
     (case s of (next_tau, next_ind, tau_list, ind_list) \<Rightarrow>
        (tau_list ! j, ind_list ! j, tau_list[j := next_tau], ind_list[j := next_ind]))"

definition dual_breakpoints_step ::
  "casadi_qp_data \<Rightarrow> real \<Rightarrow> nat \<Rightarrow> nat \<times> real list \<times> int list \<Rightarrow> nat \<times> real list \<times> int list" where
  "dual_breakpoints_step d tau i s =
     (case s of (n_tau, tau_list, ind_list) \<Rightarrow>
        if d_dlam d ! i = 0 then s
        else if d_lam d ! i = 0 then s
        else
          let trial_lam = d_lam d ! i + tau * d_dlam d ! i in
          if (if d_lam d ! i > 0 then trial_lam \<ge> 0 else trial_lam \<le> 0) then s
          else
            let new_tau = - d_lam d ! i / d_dlam d ! i;
                loc = find_loc new_tau tau_list [0..<n_tau - 1] (n_tau - 1);
                n_tau1 = n_tau + 1
            in case fold insert_step [loc..<n_tau1] (new_tau, int i, tau_list, ind_list) of
                 (next_tau, next_ind, tau_list1, ind_list1) \<Rightarrow> (n_tau1, tau_list1, ind_list1))"

definition casadi_qp_dual_breakpoints ::
  "casadi_qp_prob \<Rightarrow> casadi_qp_data \<Rightarrow> real list \<Rightarrow> int list \<Rightarrow> real \<Rightarrow> real
     \<Rightarrow> nat \<times> real list \<times> int list" where
  "casadi_qp_dual_breakpoints p d tau_list ind_list e tau =
     fold (dual_breakpoints_step d tau) [0..<p_nz p] (1, tau_list[0 := tau], ind_list[0 := - 1])"

text \<open>\<open>casadi_qp_take_step\<close>; the second loop works on \<open>(iw, lam)\<close>.\<close>

definition take_step_sign :: "casadi_qp_prob \<Rightarrow> casadi_qp_data \<Rightarrow> nat \<Rightarrow> int list \<Rightarrow> int list" where
  "take_step_sign p d i iw =
     iw[i := (if d_lam d ! i > 0 then 1 else if d_lam d ! i < 0 then - 1 else 0)]"

definition take_step_row ::
  "casadi_qp_prob \<Rightarrow> casadi_qp_data \<Rightarrow> nat \<Rightarrow> int list \<times> real list \<Rightarrow> int list \<times> real list" where
  "take_step_row p d i s =
     (case s of (iw, lam) \<Rightarrow>
        let iw1 = (if d_neverzero d ! i \<and> (if iw ! i < 0 then lam ! i > 0 else lam ! i < 0)
                   then iw[i := - iw ! i] else iw)
        in (iw1,
            if iw1 ! i = - 1 then lam[i := min (lam ! i) (- p_dmin p)]
            else if iw1 ! i = 1 then lam[i := max (lam ! i) (p_dmin p)]
            else if iw1 ! i = 0 then lam[i := 0]
            else lam))"

definition casadi_qp_take_step :: "casadi_qp_prob \<Rightarrow> casadi_qp_data \<Rightarrow> casadi_qp_data" where
  "casadi_qp_take_step p d =
     (let iw0 = fold (take_step_sign p d) [0..<p_nz p] (d_iw d);
          z1 = casadi_axpy (p_nz p) (d_tau d) (d_dz d) (d_z d);
          lam1 = casadi_axpy (p_nz p) (d_tau d) (d_dlam d) (d_lam d)
      in case fold (take_step_row p d) [0..<p_nz p] (iw0, lam1) of
           (iw1, lam2) \<Rightarrow> d\<lparr>d_z := z1, d_lam := lam2, d_iw := iw1\<rparr>)"

section \<open>Dependent quantities\<close>

text \<open>One pass of the multiplier loop of \<open>casadi_qp_calc_dependent\<close>, on \<open>(lam, infeas)\<close>.\<close>

definition calc_dependent_row ::
  "casadi_qp_prob \<Rightarrow> nat \<Rightarrow> real list \<times> real list \<Rightarrow> real list \<times> real list" where
  "calc_dependent_row p i s =
     (case s of (lam, infeas) \<Rightarrow>
        let lam1 = (if lam ! i > 0 then lam[i := max (- infeas ! i) (p_dmin p)]
                    else if lam ! i < 0 then lam[i := min (- infeas ! i) (- p_dmin p)]
                    else lam)
        in (lam1, infeas[i := infeas ! i + lam1 ! i]))"

text \<open>
  The body of \<open>casadi_qp_calc_dependent\<close> before the two error routines: the objective,
  the constraint values \<open>z[nx:]\<close>, the gradient of the Lagrangian and the bound
  multipliers. The product with A reads \<open>z[:nx]\<close> and writes \<open>z[nx:]\<close>.
\<close>

definition calc_dependent_update :: "casadi_qp_prob \<Rightarrow> casadi_qp_data \<Rightarrow> casadi_qp_data" where
  "calc_dependent_update p d =
     (let f1 = casadi_bilin (d_nz_h d) (p_sp_h p) (d_z d) (d_z d) / 2
               + casadi_dot (p_nx p) (d_z d) (d_g d);
          z0 = casadi_fill (d_z d) (p_nx p) (p_na p) 0;
          z1 = casadi_mv (d_nz_a d) (p_sp_a p) z0 0 z0 (p_nx p) False;
          infeas0 = casadi_copy (d_g d) (p_nx p) (d_infeas d);
          infeas1 = casadi_mv (d_nz_h d) (p_sp_h p) z1 0 infeas0 0 False;
          infeas2 = casadi_mv (d_nz_a d) (p_sp_a p) (d_lam d) (p_nx p) infeas1 0 True
      in case fold (calc_dependent_row p) [0..<p_nx p] (d_lam d, infeas2) of
           (lam1, infeas3) \<Rightarrow> d\<lparr>d_f := f1, d_z := z1, d_lam := lam1, d_infeas := infeas3\<rparr>)"

definition casadi_qp_calc_dependent ::
  "casadi_qp_prob \<Rightarrow> casadi_qp_data \<Rightarrow> casadi_qp_data option" where
  "casadi_qp_calc_dependent p d =
     map_option (casadi_qp_du p) (casadi_qp_pr p (calc_dependent_update p d))"

section \<open>Flipping a constraint\<close>

text \<open>
  The QR solve is defined with the QR engine, outside the kernel. It is a parameter of
  the model: given the transpose flag, the right-hand side and the work vector, it
  returns the solution and the work vector it leaves. The numeric factors it reads are
  part of the parameter.
\<close>

type_synonym qr_solve = "bool \<Rightarrow> real list \<Rightarrow> real list \<Rightarrow> real list \<times> real list"

text \<open>
  One pass of the companion search of \<open>casadi_qp_flip_check\<close>; the state is
  \<open>(best_duerr, r_index, r_lam)\<close>, with \<open>best_duerr\<close> starting at infinity. For an
  inactive candidate the source computes a multiplier and continues with the next
  candidate; for an active one \<open>new_lam\<close> is zero. The diagnostic print has no
  effect on the state.
\<close>

definition flip_check_step ::
  "casadi_qp_prob \<Rightarrow> casadi_qp_data \<Rightarrow> nat \<Rightarrow> nat \<Rightarrow> xreal \<times> int \<times> real \<Rightarrow> xreal \<times> int \<times> real" where
  "flip_check_step p d index i s =
     (case s of (best_duerr, r_index, r_lam) \<Rightarrow>
        if i = index then s
        else if (if d_lam d ! i = 0 then d_neverlower d ! i \<and> d_neverupper d ! i
                 else d_neverzero d ! i) then s
        else if \<bar>d_dz d ! i\<bar> < 1 / 10 ^ 12 then s
        else if \<bar>casadi_qp_kkt_dot2 p d (d_dlam d) i\<bar> < 1 / 10 ^ 12 then s
        else if d_lam d ! i = 0 then s
        else
          let new_lam = 0;
              new_duerr = casadi_qp_du_check p d i
          in if i \<noteq> 12 \<and>
                \<bar>casadi_qp_kkt_dot p d (d_w d) i (if d_lam d ! i = 0 then 1 else 0)\<bar> < 1 / 10 ^ 12
             then s
             else if x_lt (Fin new_duerr) best_duerr then (Fin new_duerr, int i, new_lam)
             else s)"

definition flip_check_search ::
  "casadi_qp_prob \<Rightarrow> casadi_qp_data \<Rightarrow> nat \<Rightarrow> xreal \<times> int \<times> real" where
  "flip_check_search p d index = fold (flip_check_step p d index) [0..<p_nz p] (PInf, - 1, 0)"

text \<open>
  The three solves of \<open>casadi_qp_flip_check\<close>: the difference vector of \<open>index\<close>
  solved into \<open>dz\<close>, the same vector solved with the transpose into \<open>dlam\<close>, and the
  new column of \<open>index\<close> solved into \<open>dz\<close>.
\<close>

definition flip_check_columns ::
  "casadi_qp_prob \<Rightarrow> qr_solve \<Rightarrow> casadi_qp_data \<Rightarrow> nat \<Rightarrow> casadi_qp_data" where
  "flip_check_columns p solve d index =
     (case solve False (casadi_qp_kkt_vector p d (d_dz d) index) (d_w d) of
        (dz1, w1) \<Rightarrow> d\<lparr>d_dz := dz1, d_w := w1\<rparr>)"

definition flip_check_rows ::
  "casadi_qp_prob \<Rightarrow> qr_solve \<Rightarrow> casadi_qp_data \<Rightarrow> nat \<Rightarrow> casadi_qp_data" where
  "flip_check_rows p solve d index =
     (case solve True (casadi_qp_kkt_vector p d (d_dlam d) index) (d_w d) of
        (dlam1, w1) \<Rightarrow> d\<lparr>d_dlam := dlam1, d_w := w1\<rparr>)"

definition flip_check_new_column ::
  "casadi_qp_prob \<Rightarrow> qr_solve \<Rightarrow> casadi_qp_data \<Rightarrow> nat \<Rightarrow> int \<Rightarrow> casadi_qp_data" where
  "flip_check_new_column p solve d index sign =
     (case solve False (casadi_qp_kkt_column p d (d_dz d) index sign) (d_w d) of
        (dz1, w1) \<Rightarrow> d\<lparr>d_dz := dz1, d_w := w1\<rparr>)"

text \<open>
  \<open>casadi_qp_flip_check\<close> returns its status, \<open>*r_index\<close>, \<open>*r_lam\<close> and the data.
  The first length is that of \<open>dlam\<close>, as in the source. The work vector is
  normalised by its length; a zero length makes the quotient infinite and the model
  returns \<open>None\<close>.
\<close>

definition casadi_qp_flip_check ::
  "casadi_qp_prob \<Rightarrow> qr_solve \<Rightarrow> casadi_qp_data \<Rightarrow> nat \<Rightarrow> int \<Rightarrow> int \<Rightarrow> real \<Rightarrow> real
     \<Rightarrow> (int \<times> int \<times> real \<times> casadi_qp_data) option" where
  "casadi_qp_flip_check p solve d index sign r_index r_lam e =
     (let d1 = flip_check_columns p solve d index;
          r = sqrt (casadi_dot (p_nz p) (d_dlam d1) (d_dlam d1))
      in if r < 1 / 10 ^ 12 then Some (0, r_index, r_lam, d1)
      else
      let d2 = flip_check_rows p solve
                 (d1\<lparr>d_dz := casadi_scal (p_nz p) (1 / r) (d_dz d1)\<rparr>) index;
          r1 = sqrt (casadi_dot (p_nz p) (d_dlam d2) (d_dlam d2))
      in if r1 < 1 / 10 ^ 12 then Some (0, r_index, r_lam, d2)
      else
      let d3 = flip_check_new_column p solve
                 (d2\<lparr>d_dlam := casadi_scal (p_nz p) (1 / r1) (d_dlam d2)\<rparr>) index sign
      in if \<bar>d_dz d3 ! index\<bar> \<ge> 1 / 10 ^ 12 then Some (0, r_index, r_lam, d3)
      else
      let d4 = d3\<lparr>d_w := casadi_qp_kkt_column p d3 (d_w d3) index (if sign = 0 then 1 else 0)\<rparr>;
          n = sqrt (casadi_dot (p_nz p) (d_w d4) (d_w d4))
      in if n = 0 then None
      else
      let d5 = d4\<lparr>d_w := casadi_scal (p_nz p) (1 / n) (d_w d4)\<rparr> in
      case flip_check_search p d5 index of
        (best_duerr, r_index1, r_lam1) \<Rightarrow> Some (1, r_index1, r_lam1, d5))"

text \<open>
  \<open>casadi_qp_flip\<close> returns the data with \<open>*index\<close> and \<open>*sign\<close>. The three parts
  of its body are the regularity proposal, the proposal from the errors, and the commit.
\<close>

definition flip_regularity ::
  "casadi_qp_prob \<Rightarrow> casadi_qp_data \<Rightarrow> int \<Rightarrow> int \<Rightarrow> int \<Rightarrow> int \<Rightarrow> casadi_qp_data \<times> int \<times> int" where
  "flip_regularity p d index sign r_index r_sign =
     (let e = max (p_du_to_pr p * d_pr d) (d_du d) in
      if r_index \<ge> 0 \<and> (r_sign \<noteq> 0 \<or> casadi_qp_du_check p d (nat r_index) \<le> e)
      then (d\<lparr>d_msg := MsgRegularity r_index r_sign\<rparr>, r_index, r_sign)
      else (d, index, sign))"

definition flip_improve ::
  "casadi_qp_prob \<Rightarrow> casadi_qp_data \<times> int \<times> int \<Rightarrow> (casadi_qp_data \<times> int \<times> int) option" where
  "flip_improve p s =
     (case s of (d, index, sign) \<Rightarrow>
        if index = - 1 \<and> d_tau d > 1 / 10 ^ 16 \<and> (d_ipr d \<ge> 0 \<or> d_idu d \<ge> 0) then
          (if p_du_to_pr p * d_pr d \<ge> d_du d then
             map_option (\<lambda>(i, sg, d1). (d1, i, sg)) (casadi_qp_pr_index d sign)
           else
             map_option (\<lambda>(i, sg, d1). (d1, i, sg)) (casadi_qp_du_index p d sign))
        else Some s)"

definition flip_commit ::
  "casadi_qp_prob \<Rightarrow> qr_solve \<Rightarrow> real \<Rightarrow> int \<Rightarrow> casadi_qp_data \<times> int \<times> int
     \<Rightarrow> (casadi_qp_data \<times> int \<times> int) option" where
  "flip_commit p solve e r_index s =
     (case s of (d, index, sign) \<Rightarrow>
        if index \<ge> 0 then
          (case (if d_sing d = 0 then casadi_qp_flip_check p solve d (nat index) sign r_index 0 e
                 else Some (0, r_index, 0, d)) of
             None \<Rightarrow> None
           | Some (ret, r_index1, r_lam, d1) \<Rightarrow>
               if ret \<noteq> 0 \<and> r_index1 < 0 \<and> sign \<noteq> 0 then
                 Some (d1\<lparr>d_msg := MsgCannotEnforce sign index\<rparr>, - 1, sign)
               else
                 let d2 = (if ret \<noteq> 0 \<and> r_index1 \<ge> 0
                           then d1\<lparr>d_lam := (d_lam d1)[nat r_index1 := r_lam],
                                   d_msg := MsgAlsoFlip index sign r_index1 r_lam\<rparr>
                           else d1);
                     d3 = d2\<lparr>d_lam := (d_lam d2)[nat index :=
                             (if sign = 0 then 0 else if sign > 0 then p_dmin p else - p_dmin p)]\<rparr>
                 in map_option (\<lambda>d4. (d4, - 2, sign)) (casadi_qp_calc_dependent p d3))
        else Some s)"

definition casadi_qp_flip ::
  "casadi_qp_prob \<Rightarrow> qr_solve \<Rightarrow> casadi_qp_data \<Rightarrow> int \<Rightarrow> int \<Rightarrow> int \<Rightarrow> int
     \<Rightarrow> (casadi_qp_data \<times> int \<times> int) option" where
  "casadi_qp_flip p solve d index sign r_index r_sign =
     (let e = max (p_du_to_pr p * d_pr d) (d_du d) in
      case flip_improve p (flip_regularity p d index sign r_index r_sign) of
        None \<Rightarrow> None
      | Some s \<Rightarrow> flip_commit p solve e r_index s)"

section \<open>Predicates of the statements\<close>

text \<open>
  The invariant of the companion search: the multiplier proposed for the companion is
  zero, and a companion, once chosen, is a row below \<open>n\<close> with a nonzero multiplier.
\<close>

definition companion_ok :: "casadi_qp_data \<Rightarrow> nat \<Rightarrow> xreal \<times> int \<times> real \<Rightarrow> bool" where
  "companion_ok d n s =
     (snd (snd s) = 0 \<and>
      (if fst (snd s) < 0 then True
       else nat (fst (snd s)) < n \<and> d_lam d ! nat (fst (snd s)) \<noteq> 0))"

text \<open>
  Row \<open>i\<close> triggers zero blocking: it is at or past a bound by at least \<open>e\<close> and the
  step pushes it further. The bound enlarged by \<open>e\<close> is the rounded one.
\<close>

definition lower_blocked :: "(real \<Rightarrow> real) \<Rightarrow> casadi_qp_data \<Rightarrow> real \<Rightarrow> nat \<Rightarrow> bool" where
  "lower_blocked rnd d e i =
     (d_dz d ! i < 0 \<and> x_le (Fin (d_z d ! i)) (x_rnd rnd (x_sub (d_lbz d ! i) e)))"

definition upper_blocked :: "(real \<Rightarrow> real) \<Rightarrow> casadi_qp_data \<Rightarrow> real \<Rightarrow> nat \<Rightarrow> bool" where
  "upper_blocked rnd d e i =
     (d_dz d ! i > 0 \<and> x_le (x_rnd rnd (x_add (d_ubz d ! i) e)) (Fin (d_z d ! i)))"

text \<open>
  Row \<open>i\<close> is within \<open>e\<close> of its bounds after a step of length \<open>t\<close>, in exact
  arithmetic.
\<close>

definition within_bounds :: "casadi_qp_data \<Rightarrow> real \<Rightarrow> real \<Rightarrow> nat \<Rightarrow> bool" where
  "within_bounds d e t i =
     (x_le (x_sub (d_lbz d ! i) e) (Fin (d_z d ! i + t * d_dz d ! i)) \<and>
      x_le (Fin (d_z d ! i + t * d_dz d ! i)) (x_add (d_ubz d ! i) e))"

text \<open>
  Two states agree on what the primal line search reads apart from the step length.
\<close>

definition agree :: "casadi_qp_data \<Rightarrow> casadi_qp_data \<Rightarrow> bool" where
  "agree d d1 =
     (d_z d1 = d_z d \<and> d_dz d1 = d_dz d \<and> d_lbz d1 = d_lbz d \<and> d_ubz d1 = d_ubz d \<and>
      d_lam d1 = d_lam d)"

text \<open>What the zero-blocking loop has established after the rows below \<open>n\<close>.\<close>

definition zb_post ::
  "(real \<Rightarrow> real) \<Rightarrow> casadi_qp_data \<Rightarrow> real \<Rightarrow> int \<Rightarrow> int \<Rightarrow> nat
     \<Rightarrow> int \<times> int \<times> int \<times> casadi_qp_data \<Rightarrow> bool" where
  "zb_post rnd d e index sign n s =
     (case s of (ret, idx, sg, d1) \<Rightarrow>
        agree d d1 \<and> d_tau d1 = d_tau d \<and>
        (if (\<exists>i. i < n \<and> (lower_blocked rnd d e i \<or> upper_blocked rnd d e i))
         then ret = 1 \<and>
              (\<exists>i. i < n \<and> idx = int i \<and>
                 (lower_blocked rnd d e i \<and> sg = - 1 \<or> upper_blocked rnd d e i \<and> sg = 1))
         else s = (0, index, sign, d)))"

text \<open>
  After a step of length \<open>t\<close> in exact arithmetic, row \<open>i\<close> has not passed, by more
  than \<open>e\<close>, the bound it moves towards.
\<close>

definition dir_ok :: "casadi_qp_data \<Rightarrow> real \<Rightarrow> real \<Rightarrow> nat \<Rightarrow> bool" where
  "dir_ok d e t i =
     ((if d_dz d ! i < 0 then x_le (x_sub (d_lbz d ! i) e) (Fin (d_z d ! i + t * d_dz d ! i))
       else True) \<and>
      (if d_dz d ! i > 0 then x_le (Fin (d_z d ! i + t * d_dz d ! i)) (x_add (d_ubz d ! i) e)
       else True))"


text \<open>
  The trial value of row \<open>i\<close> for the step length \<open>t\<close>, as the loop of
  \<open>casadi_qp_primal_blocking\<close> computes it, and the test of the loop: the trial value
  lies beyond the bound enlarged by \<open>e\<close> on the side the row moves to.
\<close>

definition trial :: "(real \<Rightarrow> real) \<Rightarrow> casadi_qp_data \<Rightarrow> real \<Rightarrow> nat \<Rightarrow> real" where
  "trial rnd d t i = rnd (d_z d ! i + rnd (t * d_dz d ! i))"

definition crosses :: "(real \<Rightarrow> real) \<Rightarrow> casadi_qp_data \<Rightarrow> real \<Rightarrow> real \<Rightarrow> nat \<Rightarrow> bool" where
  "crosses rnd d e t i =
     (d_dz d ! i < 0 \<and> x_lt (Fin (trial rnd d t i)) (x_rnd rnd (x_sub (d_lbz d ! i) e)) \<or>
      d_dz d ! i > 0 \<and> x_lt (x_rnd rnd (x_add (d_ubz d ! i) e)) (Fin (trial rnd d t i)))"





text \<open>
  Row \<open>i\<close> is a candidate of \<open>casadi_qp_du_index\<close> for the sensitivity vector \<open>w\<close>: it
  influences the dual error, its multiplier has the sign opposite to its sensitivity, and
  setting the multiplier to zero does not push the dual error beyond the current one.
\<close>

definition du_candidate :: "casadi_qp_prob \<Rightarrow> casadi_qp_data \<Rightarrow> real list \<Rightarrow> nat \<Rightarrow> bool" where
  "du_candidate p d w i =
     (w ! i \<noteq> 0 \<and> (w ! i > 0 \<and> d_lam d ! i < 0 \<or> w ! i < 0 \<and> d_lam d ! i > 0) \<and>
      casadi_qp_du_check p d i \<le> d_du d)"

text \<open>
  The index \<open>r\<close> is the candidate below \<open>n\<close> with the largest sensitivity in absolute
  value and, among those, the smallest index; it is -1 when there is no candidate.
\<close>

definition du_best :: "casadi_qp_prob \<Rightarrow> casadi_qp_data \<Rightarrow> real list \<Rightarrow> nat \<Rightarrow> int \<Rightarrow> bool" where
  "du_best p d w n r =
     (if (\<exists>i. i < n \<and> du_candidate p d w i)
      then 0 \<le> r \<and> nat r < n \<and> du_candidate p d w (nat r) \<and>
           (\<forall>j. j < n \<and> du_candidate p d w j \<longrightarrow>
                \<bar>w ! j\<bar> \<le> \<bar>w ! nat r\<bar> \<and> (\<bar>w ! j\<bar> = \<bar>w ! nat r\<bar> \<longrightarrow> nat r \<le> j))
      else r = - 1)"

text \<open>The state \<open>(best_ind, best_w)\<close> of the search after the rows below \<open>n\<close>.\<close>

definition du_search_inv ::
  "casadi_qp_prob \<Rightarrow> casadi_qp_data \<Rightarrow> real list \<Rightarrow> nat \<Rightarrow> int \<times> real \<Rightarrow> bool" where
  "du_search_inv p d w n s =
     (du_best p d w n (fst s) \<and>
      snd s = (if fst s < 0 then 0 else \<bar>w ! nat (fst s)\<bar>))"

text \<open>
  Row \<open>i\<close> has a breakpoint on the step of length \<open>tau\<close>: its multiplier and its
  multiplier step are not zero and the multiplier changes sign over the step. The
  breakpoint is the step length at which the multiplier is zero, paired with the row.
\<close>

definition crossing :: "casadi_qp_data \<Rightarrow> real \<Rightarrow> nat \<Rightarrow> bool" where
  "crossing d tau i =
     (d_dlam d ! i \<noteq> 0 \<and> d_lam d ! i \<noteq> 0 \<and>
      (d_lam d ! i > 0 \<and> d_lam d ! i + tau * d_dlam d ! i < 0 \<or>
       d_lam d ! i < 0 \<and> d_lam d ! i + tau * d_dlam d ! i > 0))"

definition breakpoint :: "casadi_qp_data \<Rightarrow> nat \<Rightarrow> real \<times> int" where
  "breakpoint d i = (- d_lam d ! i / d_dlam d ! i, int i)"

text \<open>Insertion of an element at position \<open>k\<close> of a list.\<close>

definition ins_at :: "nat \<Rightarrow> 'a \<Rightarrow> 'a list \<Rightarrow> 'a list" where
  "ins_at k x xs = take k xs @ x # drop k xs"

text \<open>
  The state \<open>(n_tau, tau_list, ind_list)\<close> of \<open>casadi_qp_dual_breakpoints\<close> after the
  rows \<open>js\<close>: the entries before the last are the breakpoints of the rows of \<open>js\<close> in
  ascending order, none beyond \<open>tau\<close>, and the last entry is \<open>tau\<close> with no row.
\<close>

definition bp_inv ::
  "casadi_qp_data \<Rightarrow> real \<Rightarrow> nat list \<Rightarrow> nat \<times> real list \<times> int list \<Rightarrow> bool" where
  "bp_inv d tau js s =
     (case s of (n_tau, tau_list, ind_list) \<Rightarrow>
        n_tau = Suc (length (filter (crossing d tau) js)) \<and>
        tau_list ! (n_tau - 1) = tau \<and> ind_list ! (n_tau - 1) = - 1 \<and>
        sorted (take (n_tau - 1) tau_list) \<and>
        (\<forall>x \<in> set (take (n_tau - 1) tau_list). x \<le> tau) \<and>
        mset (zip (take (n_tau - 1) tau_list) (take (n_tau - 1) ind_list)) =
          mset (map (breakpoint d) (filter (crossing d tau) js)))"

text \<open>
  The nonzeros that a column loop over a pattern visits all have row indices below
  \<open>m\<close>; the pattern is read with its own column count, as the sparse primitives do.
\<close>

definition rows_below :: "nat list \<Rightarrow> nat \<Rightarrow> bool" where
  "rows_below sp m =
     (\<forall>i \<in> set [0..<sp ! 1]. \<forall>el \<in> set [colind sp i..<colind sp (i + 1)].
        rowind sp (sp ! 1) el < m)"

text \<open>
  The patterns of A and H fit the dimensions of the problem, and the arrays \<open>z\<close>,
  \<open>lam\<close> and \<open>infeas\<close> hold at least \<open>nx\<close> entries.
\<close>

definition wf_calc :: "casadi_qp_prob \<Rightarrow> casadi_qp_data \<Rightarrow> bool" where
  "wf_calc p d =
     (p_sp_a p ! 1 \<le> p_nx p \<and> p_sp_h p ! 1 \<le> p_nx p \<and>
      rows_below (p_sp_a p) (p_na p) \<and> rows_below (p_sp_h p) (p_nx p) \<and>
      p_nx p \<le> length (d_z d) \<and> p_nx p \<le> length (d_lam d) \<and>
      p_nx p \<le> length (d_infeas d))"

text \<open>No upper bound is minus infinity and no lower bound is plus infinity.\<close>

definition bounds_proper :: "casadi_qp_prob \<Rightarrow> casadi_qp_data \<Rightarrow> bool" where
  "bounds_proper p d =
     (\<forall>i \<in> set [0..<p_nz p]. d_ubz d ! i \<noteq> MInf \<and> d_lbz d ! i \<noteq> PInf)"

text \<open>The multiplier that \<open>casadi_qp_calc_dependent\<close> stores for a value and a residual.\<close>

definition new_lam :: "real \<Rightarrow> real \<Rightarrow> real \<Rightarrow> real" where
  "new_lam dm l f =
     (if l > 0 then max (- f) dm else if l < 0 then min (- f) (- dm) else l)"

text \<open>
  The sign discipline of the multipliers: a row that is never zero has a nonzero
  multiplier, a row that is never upper has no positive one and a row that is never
  lower no negative one.
\<close>

definition sign_row :: "casadi_qp_data \<Rightarrow> nat \<Rightarrow> bool" where
  "sign_row d i =
     ((if d_neverzero d ! i then d_lam d ! i \<noteq> 0 else True) \<and>
      (if d_neverupper d ! i then d_lam d ! i \<le> 0 else True) \<and>
      (if d_neverlower d ! i then d_lam d ! i \<ge> 0 else True))"

definition sign_discipline :: "casadi_qp_prob \<Rightarrow> casadi_qp_data \<Rightarrow> bool" where
  "sign_discipline p d = list_all (sign_row d) [0..<p_nz p]"

text \<open>
  The flags of a row fit together: a row that is never zero is neither never upper
  nor never lower.
\<close>

definition flags_row :: "casadi_qp_data \<Rightarrow> nat \<Rightarrow> bool" where
  "flags_row d i = (if d_neverzero d ! i then \<not> d_neverupper d ! i \<and> \<not> d_neverlower d ! i else True)"

text \<open>The multipliers and the three flag arrays hold \<open>nz\<close> entries.\<close>

definition flags_rooms :: "casadi_qp_prob \<Rightarrow> casadi_qp_data \<Rightarrow> bool" where
  "flags_rooms p d =
     (p_nz p \<le> length (d_lam d) \<and> p_nz p \<le> length (d_neverzero d) \<and>
      p_nz p \<le> length (d_neverupper d) \<and> p_nz p \<le> length (d_neverlower d))"

text \<open>Two states have the same multiplier and flags in row \<open>j\<close>.\<close>

definition same_signs :: "casadi_qp_data \<Rightarrow> casadi_qp_data \<Rightarrow> nat \<Rightarrow> bool" where
  "same_signs d d1 j =
     (d_lam d1 ! j = d_lam d ! j \<and> d_neverzero d1 ! j = d_neverzero d ! j \<and>
      d_neverupper d1 ! j = d_neverupper d ! j \<and> d_neverlower d1 ! j = d_neverlower d ! j)"

text \<open>Two states have multiplier and flag arrays of the same lengths.\<close>

definition same_rooms :: "casadi_qp_data \<Rightarrow> casadi_qp_data \<Rightarrow> bool" where
  "same_rooms d d1 =
     (length (d_lam d1) = length (d_lam d) \<and> length (d_neverzero d1) = length (d_neverzero d) \<and>
      length (d_neverupper d1) = length (d_neverupper d) \<and>
      length (d_neverlower d1) = length (d_neverlower d))"

text \<open>
  The second loop of \<open>casadi_qp_take_step\<close> on one row: the sign it keeps for a row
  with the recorded sign \<open>s\<close> and the stepped multiplier \<open>l\<close>, and the multiplier it
  stores for a sign.
\<close>

definition new_sign :: "bool \<Rightarrow> int \<Rightarrow> real \<Rightarrow> int" where
  "new_sign nzero s l = (if nzero \<and> (if s < 0 then l > 0 else l < 0) then - s else s)"

definition clamp :: "real \<Rightarrow> int \<Rightarrow> real \<Rightarrow> real" where
  "clamp dm s l =
     (if s = - 1 then min l (- dm) else if s = 1 then max l dm else if s = 0 then 0 else l)"

text \<open>The sign that the first loop of \<open>casadi_qp_take_step\<close> records.\<close>

definition lam_sign :: "real \<Rightarrow> int" where
  "lam_sign l = (if l > 0 then 1 else if l < 0 then - 1 else 0)"

section \<open>Concrete problems and states\<close>

text \<open>The states at which the properties below are evaluated.\<close>

definition data0 :: casadi_qp_data where
  "data0 = \<lparr>d_f = 0, d_nz_a = [], d_nz_h = [], d_g = [], d_z = [], d_lbz = [], d_ubz = [],
     d_infeas = [], d_tinfeas = [], d_lam = [], d_w = [], d_dz = [], d_dlam = [], d_iw = [],
     d_neverzero = [], d_neverlower = [], d_neverupper = [], d_nz_at = [], d_msg = MsgNone,
     d_tau = 0, d_sing = 0, d_pr = 0, d_du = 0, d_ipr = - 1, d_idu = - 1\<rparr>"

text \<open>One variable, no linear constraint, \<open>H = [1]\<close>.\<close>

definition prob1 :: casadi_qp_prob where
  "prob1 = \<lparr>p_nx = 1, p_na = 0, p_nz = 1, p_dmin = 1, p_du_to_pr = 1,
     p_sp_a = [0, 1, 0, 0], p_sp_h = [1, 1, 0, 1, 0], p_sp_at = [1, 0, 0]\<rparr>"

definition data1 :: casadi_qp_data where
  "data1 = data0\<lparr>d_nz_h := [1], d_g := [- 1], d_z := [0], d_lbz := [Fin 0], d_ubz := [Fin 0],
     d_infeas := [0], d_tinfeas := [0], d_lam := [0], d_w := [0, 0], d_dz := [0], d_dlam := [0],
     d_iw := [0], d_neverzero := [False], d_neverlower := [False], d_neverupper := [False]\<rparr>"

text \<open>The same variable with both bounds at plus infinity.\<close>

definition data_inf :: casadi_qp_data where
  "data_inf = data1\<lparr>d_lbz := [PInf], d_ubz := [PInf]\<rparr>"

text \<open>The same variable with \<open>H = [2]\<close>.\<close>

definition data_h2 :: casadi_qp_data where
  "data_h2 = data1\<lparr>d_nz_h := [2]\<rparr>"

text \<open>
  Eleven variables and two linear constraints, \<open>a0 = x0 + x1\<close> (row 11) and
  \<open>a1 = 2 x1\<close> (row 12), with \<open>H = diag(0, 1, ..., 1)\<close>. In \<open>data13\<close> the variables
  \<open>x0\<close> and \<open>x1\<close> are inactive and every other row is active at its lower bound.
  \<open>solve13\<close> solves with the KKT matrix of this active set, which is symmetric:
  its rows read \<open>x11 = b0\<close>, \<open>x1 + x11 + 2 x12 = b1\<close>, \<open>xi = bi\<close> for the rows 2 to 10,
  \<open>x0 + x1 = b11\<close> and \<open>2 x1 = b12\<close>.
\<close>

definition prob13 :: casadi_qp_prob where
  "prob13 = \<lparr>p_nx = 11, p_na = 2, p_nz = 13, p_dmin = 1, p_du_to_pr = 1,
     p_sp_a = [2, 11, 0, 1, 3, 3, 3, 3, 3, 3, 3, 3, 3, 3, 0, 0, 1],
     p_sp_h = [11, 11, 0, 1, 2, 3, 4, 5, 6, 7, 8, 9, 10, 11, 0, 1, 2, 3, 4, 5, 6, 7, 8, 9, 10],
     p_sp_at = [11, 2, 0, 2, 3, 0, 1, 1]\<rparr>"

definition data13 :: casadi_qp_data where
  "data13 = data0\<lparr>
     d_nz_a := [1, 1, 2],
     d_nz_h := [0, 1, 1, 1, 1, 1, 1, 1, 1, 1, 1],
     d_g := [0, 0, 0, 0, 0, 0, 0, 0, 0, 0, 0],
     d_z := [0, 0, 0, 0, 0, 0, 0, 0, 0, 0, 0, 0, 0],
     d_lbz := [MInf, MInf, Fin 0, Fin 0, Fin 0, Fin 0, Fin 0, Fin 0, Fin 0, Fin 0, Fin 0,
               Fin 0, Fin 0],
     d_ubz := [Fin 0, PInf, PInf, PInf, PInf, PInf, PInf, PInf, PInf, PInf, PInf, PInf, PInf],
     d_infeas := [0, 0, 0, 0, 0, 0, 0, 0, 0, 0, 0],
     d_tinfeas := [0, 0, 0, 0, 0, 0, 0, 0, 0, 0, 0],
     d_lam := [0, 0, - 1, - 1, - 1, - 1, - 1, - 1, - 1, - 1, - 1, - 1, - 1],
     d_w := [0, 0, 0, 0, 0, 0, 0, 0, 0, 0, 0, 0, 0],
     d_dz := [0, 0, 0, 0, 0, 0, 0, 0, 0, 0, 0, 0, 0],
     d_dlam := [0, 0, 1, 0, 0, 0, 0, 0, 0, 0, 0, 0, 0],
     d_iw := [0, 0, 0, 0, 0, 0, 0, 0, 0, 0, 0, 0, 0],
     d_neverzero := [False, False, False, False, False, False, False, False, False, False,
                     False, False, False],
     d_neverlower := [True, True, False, False, False, False, False, False, False, False,
                      False, False, False],
     d_neverupper := [False, True, True, True, True, True, True, True, True, True, True,
                      True, True],
     d_nz_at := [1, 1, 2],
     d_tau := 1\<rparr>"

definition solve13 :: qr_solve where
  "solve13 tr b w =
     ([b ! 11 - b ! 12 / 2, b ! 12 / 2, b ! 2, b ! 3, b ! 4, b ! 5, b ! 6, b ! 7, b ! 8, b ! 9,
       b ! 10, b ! 0, (b ! 1 - b ! 12 / 2 - b ! 0) / 2], w)"

text \<open>The states that \<open>casadi_qp_flip_check\<close> passes through from \<open>data13\<close>.\<close>

definition data13_a :: casadi_qp_data where
  "data13_a = data13\<lparr>d_dz := [1, 0, 0, 0, 0, 0, 0, 0, 0, 0, 0, - 1, 1 / 2]\<rparr>"

definition data13_b :: casadi_qp_data where
  "data13_b = data13_a\<lparr>d_dlam := [1, 0, 0, 0, 0, 0, 0, 0, 0, 0, 0, - 1, 1 / 2]\<rparr>"

definition data13_c :: casadi_qp_data where
  "data13_c = data13_b\<lparr>d_dz := [0, 0, 0, 0, 0, 0, 0, 0, 0, 0, 0, 1, - 1 / 2],
     d_dlam := [2 / 3, 0, 0, 0, 0, 0, 0, 0, 0, 0, 0, - 2 / 3, 1 / 3]\<rparr>"

definition data13_d :: casadi_qp_data where
  "data13_d = data13_c\<lparr>d_w := [0, 0, 0, 0, 0, 0, 0, 0, 0, 0, 0, 1, 0]\<rparr>"

text \<open>Two variables, no linear constraint, \<open>H\<close> the identity.\<close>

definition prob2 :: casadi_qp_prob where
  "prob2 = \<lparr>p_nx = 2, p_na = 0, p_nz = 2, p_dmin = 1, p_du_to_pr = 1,
     p_sp_a = [0, 2, 0, 0, 0], p_sp_h = [2, 2, 0, 1, 2, 0, 1], p_sp_at = [2, 0, 0]\<rparr>"

definition data2 :: casadi_qp_data where
  "data2 = data0\<lparr>d_nz_h := [1, 1], d_g := [0, 0], d_z := [0, 0],
     d_lbz := [Fin (- 1), Fin (- 3)], d_ubz := [Fin 1, Fin 1],
     d_infeas := [0, 0], d_tinfeas := [0, 0], d_lam := [0, 0], d_w := [0, 0, 0, 0],
     d_dz := [0, 0], d_dlam := [0, 0], d_iw := [0, 0], d_neverzero := [False, False],
     d_neverlower := [False, False], d_neverupper := [False, False], d_tau := 1\<rparr>"

text \<open>A full step that would carry the first variable past its upper bound.\<close>

definition data_step :: casadi_qp_data where
  "data_step = data2\<lparr>d_dz := [2, - 1]\<rparr>"

text \<open>Both variables below their lower bound and moving further down.\<close>

definition data_zb :: casadi_qp_data where
  "data_zb = data2\<lparr>d_z := [- 10, - 1], d_lbz := [Fin 0, Fin 0], d_ubz := [PInf, PInf],
     d_dz := [- 1, - 1]\<rparr>"

text \<open>One variable below its lower bound, moving up by less than the violation.\<close>

definition data_low :: casadi_qp_data where
  "data_low = data1\<lparr>d_z := [- 5], d_lbz := [Fin 0], d_ubz := [Fin 10], d_dz := [1], d_tau := 1\<rparr>"

text \<open>
  One variable within its bounds whose full step passes the upper bound; the quotient
  3/187 that takes it to the bound is not a double.
\<close>

definition data_over :: casadi_qp_data where
  "data_over = data1\<lparr>d_z := [0], d_lbz := [Fin 0], d_ubz := [Fin 3], d_dz := [187], d_tau := 1\<rparr>"

text \<open>
  One variable and two linear constraints \<open>a0 = x\<close> and \<open>a1 = x\<close>, both active at
  their upper bound, with a positive dual residual.
\<close>

definition prob_a2 :: casadi_qp_prob where
  "prob_a2 = \<lparr>p_nx = 1, p_na = 2, p_nz = 3, p_dmin = 1, p_du_to_pr = 1,
     p_sp_a = [2, 1, 0, 2, 0, 1], p_sp_h = [1, 1, 0, 1, 0], p_sp_at = [1, 2, 0, 1, 2, 0, 0]\<rparr>"

definition data_a2 :: casadi_qp_data where
  "data_a2 = data0\<lparr>d_nz_a := [1, 1], d_nz_h := [1], d_g := [- 1], d_z := [0, 0, 0],
     d_lbz := [MInf, MInf, MInf], d_ubz := [PInf, Fin 0, Fin 0],
     d_infeas := [1], d_tinfeas := [0], d_lam := [0, 1, 1], d_w := [0, 0, 0, 0, 0, 0],
     d_dz := [0, 0, 0], d_dlam := [0, 0, 0], d_iw := [0, 0, 0],
     d_neverzero := [False, False, False], d_neverlower := [True, True, True],
     d_neverupper := [True, False, False], d_nz_at := [1, 1], d_tau := 1,
     d_du := 1, d_idu := 0\<rparr>"

text \<open>
  Three active rows; the multipliers of the rows 0 and 2 change sign on the full step,
  at the step lengths 1/2 and 1/4, and the multiplier of row 1 does not move.
\<close>

definition data_bp :: casadi_qp_data where
  "data_bp = data_a2\<lparr>d_lam := [2, 1, - 1], d_dlam := [- 4, 0, 4]\<rparr>"

text \<open>The same rows with a direction along which the multipliers grow.\<close>

definition data_bp_back :: casadi_qp_data where
  "data_bp_back = data_a2\<lparr>d_lam := [2, 1, - 1], d_dlam := [4, 0, - 2]\<rparr>"

text \<open>
  The same problem at \<open>x = 3\<close> with a positive multiplier on \<open>x\<close>, which
  \<open>casadi_qp_calc_dependent\<close> recomputes.
\<close>

definition data_calc :: casadi_qp_data where
  "data_calc = data_a2\<lparr>d_z := [3, 0, 0], d_lam := [2, 1, 1]\<rparr>"

text \<open>
  The problem \<open>min x^2/2 - x\<close> subject to \<open>0 \<le> x \<le> 0\<close>, started from \<open>data1\<close>:
  the state after \<open>casadi_qp_reset\<close>, after \<open>casadi_qp_calc_dependent\<close>, after the
  first line search and step (the row is active and \<open>x\<close> sits on its bound, so the
  direction is zero and the step is full), and after \<open>casadi_qp_flip\<close>. The KKT matrix
  of the active row is the identity, and so is its solve.
\<close>

definition solve1 :: qr_solve where
  "solve1 tr b w = (b, w)"

definition data_eq_reset :: casadi_qp_data where
  "data_eq_reset = data1\<lparr>d_lam := [- 1], d_neverzero := [True]\<rparr>"

definition data_eq :: casadi_qp_data where
  "data_eq = data_eq_reset\<lparr>d_infeas := [- 2], d_du := 2, d_idu := 0\<rparr>"

definition data_eq_step :: casadi_qp_data where
  "data_eq_step = data_eq\<lparr>d_tau := 1, d_w := [1, 0], d_iw := [- 1]\<rparr>"

definition data_eq_flip :: casadi_qp_data where
  "data_eq_flip = data_eq_step\<lparr>d_lam := [0], d_infeas := [- 1], d_du := 1,
     d_msg := MsgRemoved 0\<rparr>"

section \<open>Reset: the status\<close>

lemma reset_row_bounds:
  "d_lbz (snd (reset_row p i d)) = d_lbz d \<and> d_ubz (snd (reset_row p i d)) = d_ubz d"
  by (simp add: reset_row_def Let_def)

lemma reset_row_fst:
  "fst (reset_row p i d) =
     (d_lbz d ! i = d_ubz d ! i \<and> isinf (d_ubz d ! i) \<and> isinf (d_lbz d ! i))"
  by (auto simp add: reset_row_def Let_def)

lemma reset_loop_fst:
  "fst (reset_loop p js d) =
     (\<exists>i \<in> set js. d_lbz d ! i = d_ubz d ! i \<and> isinf (d_ubz d ! i) \<and> isinf (d_lbz d ! i))"
proof (induction js arbitrary: d)
  case Nil
  show ?case by simp
next
  case (Cons j js)
  obtain b d1 where r: "reset_row p j d = (b, d1)" by (cases "reset_row p j d")
  have b: "b = (d_lbz d ! j = d_ubz d ! j \<and> isinf (d_ubz d ! j) \<and> isinf (d_lbz d ! j))"
    using reset_row_fst [of p j d] r by simp
  have d1: "d_lbz d1 = d_lbz d" "d_ubz d1 = d_ubz d"
    using reset_row_bounds [of p j d] r by simp_all
  show ?case
  proof (cases b)
    case True
    with r b show ?thesis by auto
  next
    case False
    with r have "reset_loop p (j # js) d = reset_loop p js d1" by simp
    with Cons.IH [of d1] d1 b False show ?thesis by auto
  qed
qed

text \<open>
  C2 (as amended). \<open>casadi_qp_reset\<close> returns 1 exactly when some row below \<open>nz\<close>
  has equal bounds that are both infinite, as \<open>isinf\<close> tests them: both plus infinity
  or both minus infinity. Otherwise it returns 0.
\<close>

theorem reset_status:
  "fst (casadi_qp_reset p d) =
     (if (\<exists>i. i < p_nz p \<and> d_lbz d ! i = d_ubz d ! i
              \<and> isinf (d_ubz d ! i) \<and> isinf (d_lbz d ! i))
      then 1 else 0)"
proof -
  let ?d0 = "d\<lparr>d_msg := MsgNone, d_tau := 0, d_sing := 0\<rparr>"
  obtain b d1 where r: "reset_loop p [0..<p_nz p] ?d0 = (b, d1)"
    by (cases "reset_loop p [0..<p_nz p] ?d0")
  have "b = (\<exists>i \<in> set [0..<p_nz p]. d_lbz d ! i = d_ubz d ! i
               \<and> isinf (d_ubz d ! i) \<and> isinf (d_lbz d ! i))"
    using reset_loop_fst [of p "[0..<p_nz p]" ?d0] r by simp
  then have b: "b = (\<exists>i. i < p_nz p \<and> d_lbz d ! i = d_ubz d ! i
                       \<and> isinf (d_ubz d ! i) \<and> isinf (d_lbz d ! i))"
    by auto
  show ?thesis
  proof (cases b)
    case True
    with r have "fst (casadi_qp_reset p d) = 1"
      by (simp add: casadi_qp_reset_def)
    with b True show ?thesis by simp
  next
    case False
    with r have "fst (casadi_qp_reset p d) = 0"
      by (simp add: casadi_qp_reset_def split: prod.splits)
    with b False show ?thesis by simp
  qed
qed

theorem reset_status_witness:
  "fst (casadi_qp_reset prob1 data1) = 0 \<and> fst (casadi_qp_reset prob1 data_inf) = 1"
proof -
  have a: "\<not> (\<exists>i. i < p_nz prob1 \<and> d_lbz data1 ! i = d_ubz data1 ! i
                \<and> isinf (d_ubz data1 ! i) \<and> isinf (d_lbz data1 ! i))"
    by (simp add: prob1_def data1_def data0_def)
  have b: "\<exists>i. i < p_nz prob1 \<and> d_lbz data_inf ! i = d_ubz data_inf ! i
                \<and> isinf (d_ubz data_inf ! i) \<and> isinf (d_lbz data_inf ! i)"
    by (simp add: prob1_def data_inf_def data1_def data0_def)
  show ?thesis
    using reset_status [of prob1 data1] reset_status [of prob1 data_inf] a b by simp
qed

text \<open>
  The claim as stated reads neverupper as an upper bound of plus infinity and neverlower
  as a lower bound of minus infinity. No row can have equal bounds of that kind, yet
  the reset fails on a row whose bounds are both plus infinity.
\<close>

theorem reset_status_counterexample:
  "fst (casadi_qp_reset prob1 data_inf) = 1 \<and> p_nz prob1 = 1 \<and>
   \<not> (d_lbz data_inf ! 0 = d_ubz data_inf ! 0 \<and> d_ubz data_inf ! 0 = PInf
      \<and> d_lbz data_inf ! 0 = MInf)"
  by (simp add: casadi_qp_reset_def reset_row_def prob1_def data_inf_def data1_def data0_def)

section \<open>The KKT vector as a difference of columns\<close>

lemma fold_update_length:
  "length (fold (\<lambda>k v. v[f k := g k]) ks v) = length v"
  by (induction ks arbitrary: v) simp_all

lemma casadi_fill_length: "length (casadi_fill x off n alpha) = length x"
  by (simp add: casadi_fill_def fold_update_length)

lemma fold_fill_nth:
  "j < length x \<Longrightarrow>
   fold (\<lambda>i v. v[off + i := alpha]) [0..<n] x ! j =
     (if off \<le> j \<and> j < off + n then alpha else x ! j)"
proof (induction n)
  case 0
  show ?case by auto
next
  case (Suc n)
  let ?v = "fold (\<lambda>i v. v[off + i := alpha]) [0..<n] x"
  have l: "length ?v = length x" by (simp add: fold_update_length)
  have "fold (\<lambda>i v. v[off + i := alpha]) [0..<Suc n] x ! j = ?v[off + n := alpha] ! j"
    by simp
  also have "\<dots> = (if off + n = j then alpha else ?v ! j)"
    using Suc.prems l by (simp add: nth_list_update)
  finally show ?case using Suc by auto
qed

lemma casadi_fill_nth:
  "j < length x \<Longrightarrow>
   casadi_fill x off n alpha ! j = (if off \<le> j \<and> j < off + n then alpha else x ! j)"
  by (simp add: casadi_fill_def fold_fill_nth)

lemma fold_update_neg:
  "length v = length v' \<Longrightarrow> j < length v \<Longrightarrow> v ! j = - v' ! j \<Longrightarrow>
   fold (\<lambda>k v. v[f k := - g k]) ks v ! j = - fold (\<lambda>k v. v[f k := (g k :: real)]) ks v' ! j"
proof (induction ks arbitrary: v v')
  case Nil
  then show ?case by simp
next
  case (Cons k ks)
  have "v[f k := - g k] ! j = - v'[f k := g k] ! j"
    using Cons.prems by (cases "f k = j") simp_all
  with Cons.IH [of "v[f k := - g k]" "v'[f k := g k]"] Cons.prems show ?case by simp
qed

lemma kkt_sparse_a_h_length: "length (kkt_sparse_a_h p d i v) = length v"
  by (simp add: kkt_sparse_a_h_def Let_def fold_update_length)

text \<open>
  C4 (as amended). For every index \<open>i\<close> below \<open>nz\<close> and every nonzero sign \<open>s\<close>, the
  vector written by \<open>casadi_qp_kkt_vector\<close> is, entry by entry, the column written by
  \<open>casadi_qp_kkt_column\<close> for the inactive row minus the column for the active row.
\<close>

theorem kkt_vector_difference:
  assumes len: "p_nz p \<le> length out" and i: "i < p_nz p" and j: "j < p_nz p" and s: "s \<noteq> 0"
  shows "casadi_qp_kkt_vector p d out i ! j =
           casadi_qp_kkt_column p d out i 0 ! j - casadi_qp_kkt_column p d out i s ! j"
proof -
  let ?k0 = "casadi_fill out 0 (p_nz p) 0"
  have l0: "length ?k0 = length out" by (simp add: casadi_fill_length)
  have z0: "?k0 ! j = 0" using len j by (simp add: casadi_fill_nth)
  show ?thesis
  proof (cases "i < p_nx p")
    case True
    let ?k1 = "kkt_sparse_a_h p d i ?k0"
    have l1: "length ?k1 = length out" by (simp add: kkt_sparse_a_h_length l0)
    have v: "casadi_qp_kkt_vector p d out i = ?k1[i := ?k1 ! i - 1]"
      using True by (simp add: casadi_qp_kkt_vector_def Let_def)
    have c0: "casadi_qp_kkt_column p d out i 0 = ?k1"
      using True by (simp add: casadi_qp_kkt_column_def Let_def)
    have cs: "casadi_qp_kkt_column p d out i s = ?k0[i := 1]"
      using True s by (simp add: casadi_qp_kkt_column_def Let_def)
    show ?thesis
      using len i j l0 l1 z0 by (simp add: v c0 cs nth_list_update)
  next
    case False
    let ?ks = "[colind (p_sp_at p) (i - p_nx p)..<colind (p_sp_at p) (i - p_nx p + 1)]"
    let ?neg = "fold (\<lambda>k v. v[rowind (p_sp_at p) (p_na p) k := - d_nz_at d ! k]) ?ks ?k0"
    let ?pos = "fold (\<lambda>k v. v[rowind (p_sp_at p) (p_na p) k := d_nz_at d ! k]) ?ks ?k0"
    have ln: "length ?neg = length out" by (simp add: fold_update_length l0)
    have v: "casadi_qp_kkt_vector p d out i = ?neg[i := ?neg ! i - 1]"
      using False by (simp add: casadi_qp_kkt_vector_def Let_def)
    have c0: "casadi_qp_kkt_column p d out i 0 = ?k0[i := - 1]"
      using False by (simp add: casadi_qp_kkt_column_def Let_def)
    have cs: "casadi_qp_kkt_column p d out i s = ?pos"
      using False s by (simp add: casadi_qp_kkt_column_def Let_def)
    have np: "?neg ! m = - ?pos ! m" if "m < p_nz p" for m
    proof -
      have "?k0 ! m = 0" using len that by (simp add: casadi_fill_nth)
      then show ?thesis
        using fold_update_neg [of ?k0 ?k0 m "\<lambda>k. rowind (p_sp_at p) (p_na p) k" "\<lambda>k. d_nz_at d ! k" ?ks]
          len that l0 by simp
    qed
    show ?thesis
      using len i j l0 ln z0 np [of i] np [of j] by (simp add: v c0 cs nth_list_update)
  qed
qed

theorem kkt_vector_difference_witness:
  "p_nz prob1 \<le> length [0 :: real] \<and> 0 < p_nz prob1 \<and> (1 :: int) \<noteq> 0 \<and>
   casadi_qp_kkt_vector prob1 data_h2 [0] 0 ! 0 = 2 - 1"
proof -
  have len: "p_nz prob1 \<le> length [0 :: real]" and i: "0 < p_nz prob1"
    by (simp_all add: prob1_def)
  have s: "(1 :: int) \<noteq> 0" by simp
  have c: "casadi_qp_kkt_column prob1 data_h2 [0] 0 0 = [2] \<and>
           casadi_qp_kkt_column prob1 data_h2 [0] 0 1 = [1]"
    by (simp add: casadi_qp_kkt_column_def casadi_fill_def kkt_sparse_a_h_def colind_def
          rowind_def prob1_def data_h2_def data1_def data0_def)
  show ?thesis
    using kkt_vector_difference [OF len i i s, of data_h2] len i c by simp
qed

text \<open>
  The claim as stated has the difference the other way round: active minus inactive.
  With \<open>H = [2]\<close> the vector is 1, the active column is 1 and the inactive column is 2.
\<close>

theorem kkt_vector_difference_counterexample:
  "casadi_qp_kkt_vector prob1 data_h2 [0] 0 ! 0 \<noteq>
     casadi_qp_kkt_column prob1 data_h2 [0] 0 1 ! 0 - casadi_qp_kkt_column prob1 data_h2 [0] 0 0 ! 0"
  by (simp add: casadi_qp_kkt_vector_def casadi_qp_kkt_column_def casadi_fill_def
        kkt_sparse_a_h_def colind_def rowind_def prob1_def data_h2_def data1_def data0_def)

section \<open>The flip check\<close>

lemma flip_check_step_ok:
  "companion_ok d n s \<Longrightarrow> i < n \<Longrightarrow> companion_ok d n (flip_check_step p d index i s)"
  by (cases s) (auto simp add: flip_check_step_def companion_ok_def Let_def split: if_splits)

lemma flip_check_fold_ok:
  "companion_ok d n s \<Longrightarrow> \<forall>i \<in> set js. i < n \<Longrightarrow>
   companion_ok d n (fold (flip_check_step p d index) js s)"
  by (induction js arbitrary: s) (simp_all add: flip_check_step_ok)

lemma flip_check_returns_1:
  "casadi_qp_flip_check p solve d index sign r_index r_lam e = Some (ret, ri, rl, d') \<Longrightarrow>
   ret \<noteq> 0 \<Longrightarrow>
   d_lam d' = d_lam d \<and> (\<exists>b. flip_check_search p d' index = (b, ri, rl))"
  by (auto simp add: casadi_qp_flip_check_def flip_check_columns_def flip_check_rows_def
        flip_check_new_column_def Let_def split: prod.splits if_splits)

text \<open>
  The run of \<open>casadi_qp_flip_check\<close> that reaches the companion search, step by step.
\<close>

lemma flip_check_trace:
  assumes "flip_check_columns p solve d index = d1"
    and "sqrt (casadi_dot (p_nz p) (d_dlam d1) (d_dlam d1)) = r"
    and "\<not> r < 1 / 10 ^ 12"
    and "flip_check_rows p solve (d1\<lparr>d_dz := casadi_scal (p_nz p) (1 / r) (d_dz d1)\<rparr>) index = d2"
    and "sqrt (casadi_dot (p_nz p) (d_dlam d2) (d_dlam d2)) = r1"
    and "\<not> r1 < 1 / 10 ^ 12"
    and "flip_check_new_column p solve
           (d2\<lparr>d_dlam := casadi_scal (p_nz p) (1 / r1) (d_dlam d2)\<rparr>) index sign = d3"
    and "\<not> \<bar>d_dz d3 ! index\<bar> \<ge> 1 / 10 ^ 12"
    and "casadi_qp_kkt_column p d3 (d_w d3) index (if sign = 0 then 1 else 0) = w4"
    and "sqrt (casadi_dot (p_nz p) w4 w4) = n"
    and "n \<noteq> 0"
    and "d3\<lparr>d_w := casadi_scal (p_nz p) (1 / n) w4\<rparr> = d5"
    and "flip_check_search p d5 index = (b, ri, rl)"
  shows "casadi_qp_flip_check p solve d index sign r_index r_lam e = Some (1, ri, rl, d5)"
  using assms by (auto simp add: casadi_qp_flip_check_def Let_def)

lemma sqrt_9_4: "sqrt (9 / 4) = 3 / 2"
  by (rule real_sqrt_unique) (simp_all add: power2_eq_square)

lemmas eval13 = casadi_qp_kkt_vector_def casadi_qp_kkt_column_def
  casadi_qp_kkt_dot_def casadi_qp_kkt_dot2_def casadi_qp_du_check_def
  casadi_fill_def casadi_dot_def casadi_scal_def kkt_sparse_a_h_def colind_def rowind_def
  prob13_def data13_def data13_a_def data13_b_def data13_c_def data13_d_def data0_def
  solve13_def upt_conv_Cons

lemma data13_columns: "flip_check_columns prob13 solve13 data13 0 = data13_a"
  by (simp add: flip_check_columns_def eval13)

lemma data13_a_length:
  "sqrt (casadi_dot (p_nz prob13) (d_dlam data13_a) (d_dlam data13_a)) = 1"
  by (simp add: eval13)

lemma data13_rows:
  "flip_check_rows prob13 solve13
     (data13_a\<lparr>d_dz := casadi_scal (p_nz prob13) (1 / 1) (d_dz data13_a)\<rparr>) 0 = data13_b"
  by (simp add: flip_check_rows_def eval13)

lemma data13_b_length:
  "sqrt (casadi_dot (p_nz prob13) (d_dlam data13_b) (d_dlam data13_b)) = 3 / 2"
  by (simp add: eval13 sqrt_9_4)

lemma data13_new_column:
  "flip_check_new_column prob13 solve13
     (data13_b\<lparr>d_dlam := casadi_scal (p_nz prob13) (1 / (3 / 2)) (d_dlam data13_b)\<rparr>) 0 1
   = data13_c"
  by (simp add: flip_check_new_column_def eval13)

lemma data13_dependent: "\<not> \<bar>d_dz data13_c ! 0\<bar> \<ge> 1 / 10 ^ 12"
  by (simp add: eval13)

lemma data13_old_column:
  "casadi_qp_kkt_column prob13 data13_c (d_w data13_c) 0 (if (1::int) = 0 then 1 else 0)
   = [0, 0, 0, 0, 0, 0, 0, 0, 0, 0, 0, 1, 0]"
  by (simp add: eval13)

lemma data13_old_length:
  "sqrt (casadi_dot (p_nz prob13) [0, 0, 0, 0, 0, 0, 0, 0, 0, 0, 0, 1, 0]
     [0, 0, 0, 0, 0, 0, 0, 0, 0, 0, 0, 1, 0]) = 1"
  by (simp add: eval13)

lemma data13_scaled:
  "data13_c\<lparr>d_w := casadi_scal (p_nz prob13) (1 / 1) [0, 0, 0, 0, 0, 0, 0, 0, 0, 0, 0, 1, 0]\<rparr>
   = data13_d"
  by (simp add: eval13)

lemma data13_search: "flip_check_search prob13 data13_d 0 = (Fin 2, 12, 0)"
  by (simp add: flip_check_search_def flip_check_step_def eval13)

lemma flip_check_data13:
  "casadi_qp_flip_check prob13 solve13 data13 0 1 r_index r_lam e = Some (1, 12, 0, data13_d)"
  by (rule flip_check_trace [OF data13_columns data13_a_length _ data13_rows data13_b_length _
        data13_new_column data13_dependent data13_old_column data13_old_length _
        data13_scaled data13_search]) simp_all

text \<open>
  C10. When \<open>casadi_qp_flip_check\<close> returns 1 with a companion, the multiplier it
  proposes for the companion is zero and the companion is an active row: its multiplier
  in the incoming state is not zero.
\<close>

theorem flip_check_companion_drop:
  assumes r: "casadi_qp_flip_check p solve d index sign r_index r_lam e = Some (1, ri, rl, d')"
    and ri: "0 \<le> ri"
  shows "rl = 0 \<and> nat ri < p_nz p \<and> d_lam d ! nat ri \<noteq> 0"
proof -
  from flip_check_returns_1 [OF r] obtain b where
    l: "d_lam d' = d_lam d" and
    f: "flip_check_search p d' index = (b, ri, rl)"
    by auto
  have "companion_ok d' (p_nz p) (PInf, - 1, 0)" by (simp add: companion_ok_def)
  then have "companion_ok d' (p_nz p) (fold (flip_check_step p d' index) [0..<p_nz p] (PInf, - 1, 0))"
    by (rule flip_check_fold_ok) simp
  with f ri l show ?thesis by (simp add: companion_ok_def flip_check_search_def)
qed

theorem flip_check_companion_drop_witness:
  "casadi_qp_flip_check prob13 solve13 data13 0 1 (- 1) 0 0 = Some (1, 12, 0, data13_d) \<and>
   (0 :: int) \<le> 12 \<and> (0 :: real) = 0 \<and> nat 12 < p_nz prob13 \<and> d_lam data13 ! nat 12 \<noteq> 0"
proof -
  have r: "casadi_qp_flip_check prob13 solve13 data13 0 1 (- 1) 0 0 = Some (1, 12, 0, data13_d)"
    by (rule flip_check_data13)
  have ri: "(0 :: int) \<le> 12" by simp
  from flip_check_companion_drop [OF r ri] r show ?thesis by simp
qed

text \<open>
  C3. A candidate other than row 12 whose product with the column being removed is
  below the threshold is rejected; the source exempts row 12 from this test.
\<close>

lemma flip_check_step_rejects:
  "i \<noteq> 12 \<Longrightarrow>
   \<bar>casadi_qp_kkt_dot p d (d_w d) i (if d_lam d ! i = 0 then 1 else 0)\<bar> < 1 / 10 ^ 12 \<Longrightarrow>
   flip_check_step p d index i s = s"
  by (cases s; cases "d_lam d ! i = 0") (simp_all add: flip_check_step_def Let_def)

text \<open>
  C3, at the failing input. From \<open>data13\<close>, adding the upper bound of \<open>x0\<close> reaches the
  companion search. Row 12 is chosen as the companion although its product with the
  column being removed is zero.
\<close>

theorem flip_check_row_12_not_tested:
  "casadi_qp_flip_check prob13 solve13 data13 0 1 (- 1) 0 0 = Some (1, 12, 0, data13_d) \<and>
   \<bar>casadi_qp_kkt_dot prob13 data13_d (d_w data13_d) 12
       (if d_lam data13_d ! 12 = 0 then 1 else 0)\<bar> < 1 / 10 ^ 12"
proof -
  have "\<bar>casadi_qp_kkt_dot prob13 data13_d (d_w data13_d) 12
          (if d_lam data13_d ! 12 = 0 then 1 else 0)\<bar> = 0"
    by (simp add: eval13)
  with flip_check_data13 [of "- 1" 0 0] show ?thesis by simp
qed

section \<open>Primal blocking\<close>

lemma zero_blocking_step_cases:
  "zero_blocking_step rnd e i (ret, idx, sg, d) =
     (if lower_blocked rnd d e i then (1, int i, - 1, d\<lparr>d_msg := MsgLbzViolated i\<rparr>)
      else if upper_blocked rnd d e i then (1, int i, 1, d\<lparr>d_msg := MsgUbzViolated i\<rparr>)
      else (ret, idx, sg, d))"
  by (simp only: zero_blocking_step_def lower_blocked_def upper_blocked_def prod.case Let_def
        neg_0_less_iff_less)

lemma agree_refl: "agree d d"
  by (simp add: agree_def)

lemma agree_msg: "agree d d1 \<Longrightarrow> agree d (d1\<lparr>d_msg := m\<rparr>)"
  by (simp add: agree_def)

lemma agree_tau_msg: "agree d d1 \<Longrightarrow> agree d (d1\<lparr>d_tau := t, d_msg := m\<rparr>)"
  by (simp add: agree_def)

lemma agree_tau: "agree d d1 \<Longrightarrow> agree d (d1\<lparr>d_tau := t\<rparr>)"
  by (simp add: agree_def)

lemma agree_blocked:
  "agree d d1 \<Longrightarrow> lower_blocked rnd d1 e i = lower_blocked rnd d e i"
  "agree d d1 \<Longrightarrow> upper_blocked rnd d1 e i = upper_blocked rnd d e i"
  by (simp_all add: agree_def lower_blocked_def upper_blocked_def)

lemma zb_postI_blocked:
  assumes "agree d d1" and "d_tau d1 = d_tau d" and "i < n"
    and "lower_blocked rnd d e i \<and> sg = - 1 \<or> upper_blocked rnd d e i \<and> sg = 1"
  shows "zb_post rnd d e index sign n (1, int i, sg, d1)"
proof -
  have a: "\<exists>j. j < n \<and> (lower_blocked rnd d e j \<or> upper_blocked rnd d e j)"
    using assms(3,4) by (intro exI [of _ i]) auto
  have b: "\<exists>j. j < n \<and> int i = int j \<and>
             (lower_blocked rnd d e j \<and> sg = - 1 \<or> upper_blocked rnd d e j \<and> sg = 1)"
    using assms(3,4) by (intro exI [of _ i]) simp
  show ?thesis
    unfolding zb_post_def prod.case using a b assms(1,2) by simp
qed

lemma zb_post_step:
  assumes "zb_post rnd d e index sign n s"
  shows "zb_post rnd d e index sign (Suc n) (zero_blocking_step rnd e n s)"
proof -
  obtain ret idx sg d1 where s: "s = (ret, idx, sg, d1)" by (cases s) auto
  from assms s have ag: "agree d d1" and tau: "d_tau d1 = d_tau d"
    by (simp_all add: zb_post_def)
  note lb = agree_blocked(1) [OF ag, of rnd e n]
  note ub = agree_blocked(2) [OF ag, of rnd e n]
  show ?thesis
  proof (cases "lower_blocked rnd d e n")
    case True
    have "zero_blocking_step rnd e n s = (1, int n, - 1, d1\<lparr>d_msg := MsgLbzViolated n\<rparr>)"
      using True lb s by (simp add: zero_blocking_step_cases)
    moreover have "zb_post rnd d e index sign (Suc n) (1, int n, - 1, d1\<lparr>d_msg := MsgLbzViolated n\<rparr>)"
      by (rule zb_postI_blocked) (simp_all add: agree_msg [OF ag] tau True)
    ultimately show ?thesis by (simp only:)
  next
    case False
    note nl = False
    show ?thesis
    proof (cases "upper_blocked rnd d e n")
      case True
      have "zero_blocking_step rnd e n s = (1, int n, 1, d1\<lparr>d_msg := MsgUbzViolated n\<rparr>)"
        using True nl lb ub s by (simp add: zero_blocking_step_cases)
      moreover have "zb_post rnd d e index sign (Suc n) (1, int n, 1, d1\<lparr>d_msg := MsgUbzViolated n\<rparr>)"
        by (rule zb_postI_blocked) (simp_all add: agree_msg [OF ag] tau True)
      ultimately show ?thesis by (simp only:)
    next
      case False
      have same: "zero_blocking_step rnd e n s = s"
        using False nl lb ub s by (simp add: zero_blocking_step_cases)
      have ex: "(\<exists>i. i < Suc n \<and> (lower_blocked rnd d e i \<or> upper_blocked rnd d e i))
            = (\<exists>i. i < n \<and> (lower_blocked rnd d e i \<or> upper_blocked rnd d e i))"
        using False nl by (auto simp add: less_Suc_eq)
      show ?thesis
      proof (cases "\<exists>i. i < n \<and> (lower_blocked rnd d e i \<or> upper_blocked rnd d e i)")
        case True
        with assms s have r: "ret = 1" and
          "\<exists>i. i < n \<and> idx = int i \<and>
               (lower_blocked rnd d e i \<and> sg = - 1 \<or> upper_blocked rnd d e i \<and> sg = 1)"
          by (simp_all add: zb_post_def)
        then have "\<exists>i. i < Suc n \<and> idx = int i \<and>
               (lower_blocked rnd d e i \<and> sg = - 1 \<or> upper_blocked rnd d e i \<and> sg = 1)"
          by (auto simp add: less_Suc_eq)
        with r True ex ag tau same s show ?thesis
          by (simp add: zb_post_def)
      next
        case False
        with assms ex s have "s = (0, index, sign, d)"
          by (simp add: zb_post_def)
        with False ex same show ?thesis
          by (simp add: zb_post_def agree_refl)
      qed
    qed
  qed
qed

lemma zb_fold: "zb_post rnd d e index sign n (fold (zero_blocking_step rnd e) [0..<n] (0, index, sign, d))"
proof (induction n)
  case 0
  show ?case by (simp add: zb_post_def agree_refl)
next
  case (Suc n)
  have "fold (zero_blocking_step rnd e) [0..<Suc n] (0, index, sign, d)
          = zero_blocking_step rnd e n (fold (zero_blocking_step rnd e) [0..<n] (0, index, sign, d))"
    by simp
  with zb_post_step [OF Suc] show ?case by (simp only:)
qed

lemma zero_blocking_post:
  "zb_post rnd d e index sign (p_nz p) (casadi_qp_zero_blocking rnd p d e index sign)"
  by (simp add: casadi_qp_zero_blocking_def zb_fold)


lemma zero_blocking_none:
  assumes "fst (casadi_qp_zero_blocking rnd p d e index sign) = 0"
  shows "casadi_qp_zero_blocking rnd p d e index sign = (0, index, sign, d)"
    and "\<forall>i \<in> set [0..<p_nz p]. \<not> lower_blocked rnd d e i \<and> \<not> upper_blocked rnd d e i"
proof -
  obtain ret idx sg d1 where s: "casadi_qp_zero_blocking rnd p d e index sign = (ret, idx, sg, d1)"
    by (cases "casadi_qp_zero_blocking rnd p d e index sign") auto
  with assms have r: "ret = 0" by simp
  have post: "zb_post rnd d e index sign (p_nz p) (ret, idx, sg, d1)"
    using zero_blocking_post [of rnd d e index sign p] s by simp
  have nb: "\<not> (\<exists>i. i < p_nz p \<and> (lower_blocked rnd d e i \<or> upper_blocked rnd d e i))"
  proof
    assume "\<exists>i. i < p_nz p \<and> (lower_blocked rnd d e i \<or> upper_blocked rnd d e i)"
    with post have "ret = 1" by (simp add: zb_post_def)
    with r show False by simp
  qed
  with post have "(ret, idx, sg, d1) = (0, index, sign, d)" by (simp add: zb_post_def)
  with s show "casadi_qp_zero_blocking rnd p d e index sign = (0, index, sign, d)" by simp
  from nb show "\<forall>i \<in> set [0..<p_nz p]. \<not> lower_blocked rnd d e i \<and> \<not> upper_blocked rnd d e i"
    by auto
qed

section \<open>Primal blocking: the accepted step length\<close>













text \<open>
  C5 (as amended). When zero blocking triggers, \<open>casadi_qp_primal_blocking\<close> sets the
  step length to zero and reports a row that triggers it: a row at or past its lower
  bound by at least \<open>e\<close> and moving down, with sign -1, or at or past its upper bound
  by at least \<open>e\<close> and moving up, with sign 1.
\<close>

theorem zero_blocking_pins_tau:
  assumes "fst (casadi_qp_zero_blocking rnd p d e index sign) \<noteq> 0"
  shows "\<exists>d' i sg. casadi_qp_primal_blocking rnd p d e index sign = Some (d', int i, sg) \<and>
           d_tau d' = 0 \<and> i < p_nz p \<and>
           (lower_blocked rnd d e i \<and> sg = - 1 \<or> upper_blocked rnd d e i \<and> sg = 1)"
proof -
  obtain ret idx sg d1 where s: "casadi_qp_zero_blocking rnd p d e index sign = (ret, idx, sg, d1)"
    by (cases "casadi_qp_zero_blocking rnd p d e index sign") auto
  with assms have r: "ret \<noteq> 0" by simp
  have post: "zb_post rnd d e index sign (p_nz p) (ret, idx, sg, d1)"
    using zero_blocking_post [of rnd d e index sign p] s by simp
  have ex: "\<exists>i. i < p_nz p \<and> (lower_blocked rnd d e i \<or> upper_blocked rnd d e i)"
  proof (rule ccontr)
    assume "\<not> (\<exists>i. i < p_nz p \<and> (lower_blocked rnd d e i \<or> upper_blocked rnd d e i))"
    with post have "ret = 0" by (simp add: zb_post_def)
    with r show False by simp
  qed
  with post obtain i where i: "i < p_nz p" "idx = int i"
      "lower_blocked rnd d e i \<and> sg = - 1 \<or> upper_blocked rnd d e i \<and> sg = 1"
    by (auto simp add: zb_post_def)
  have pb: "casadi_qp_primal_blocking rnd p d e index sign = Some (d1\<lparr>d_tau := 0\<rparr>, int i, sg)"
    using s r i(2) by (simp add: casadi_qp_primal_blocking_def)
  show ?thesis
  proof (intro exI conjI)
    show "casadi_qp_primal_blocking rnd p d e index sign = Some (d1\<lparr>d_tau := 0\<rparr>, int i, sg)"
      by (rule pb)
    show "d_tau (d1\<lparr>d_tau := 0\<rparr>) = 0" by simp
    show "i < p_nz p" by (rule i(1))
    show "lower_blocked rnd d e i \<and> sg = - 1 \<or> upper_blocked rnd d e i \<and> sg = 1" by (rule i(3))
  qed
qed

section \<open>The line search with the rounding of doubles\<close>




lemma normal_numeral:
  "normal (numeral k) m e =
     (if m < 2 ^ 52 then normal (pred_numeral k) (2 * m) (e - 1)
      else if 2 ^ 53 \<le> m then normal (pred_numeral k) (m / 2) (e + 1)
      else (m, e))"
  by (simp add: numeral_eq_Suc)

lemmas eval_fl64 = fl64_def normal_numeral round_even_def Let_def

lemma fl64_values:
  "fl64 0 = 0" "fl64 1 = 1" "fl64 (- 1) = - 1" "fl64 2 = 2" "fl64 (- 3) = - 3"
  "fl64 (1 / 2) = 1 / 2" "fl64 (- (1 / 2)) = - (1 / 2)" "fl64 10 = 10" "fl64 (- 4) = - 4"
  "fl64 3 = 3" "fl64 187 = 187" "fl64 (- 10) = - 10" "fl64 5 = 5" "fl64 (- 5) = - 5"
  "fl64 (3 / 187) = 2312008364853303 / 2 ^ 57"
  "fl64 (2312008364853303 / 2 ^ 57 * 187) = 6755399441055745 / 2 ^ 51"
  "fl64 (6755399441055745 / 2 ^ 51) = 6755399441055745 / 2 ^ 51"
  by (simp_all add: eval_fl64)

lemmas eval_pb = casadi_qp_primal_blocking_def casadi_qp_zero_blocking_def
  zero_blocking_step_def primal_blocking_step_def lower_blocked_def upper_blocked_def
  within_bounds_def x_le_def prob1_def prob2_def data_step_def data_zb_def data_low_def
  data_over_def data2_def data1_def data0_def upt_conv_Cons Let_def fl64_values



text \<open>
  At the second state of the counterexample the trial value that the code computes for
  the accepted step length is \<open>3 + 2^-51\<close>: the row that limits the step ends beyond
  its bound by the rounding of the quotient.
\<close>

lemma primal_blocking_overshoot:
  "trial fl64 data_over (2312008364853303 / 2 ^ 57) 0 = 3 + 1 / 2 ^ 51 \<and>
   crosses fl64 data_over 0 (2312008364853303 / 2 ^ 57) 0"
  by (simp add: trial_def crosses_def data_over_def data1_def data0_def eval_fl64)


theorem zero_blocking_pins_tau_witness:
  "fst (casadi_qp_zero_blocking fl64 prob2 data_zb 0 (- 1) 0) \<noteq> 0 \<and>
   (\<exists>d' i sg. casadi_qp_primal_blocking fl64 prob2 data_zb 0 (- 1) 0 = Some (d', int i, sg) \<and>
      d_tau d' = 0 \<and> i < p_nz prob2 \<and>
      (lower_blocked fl64 data_zb 0 i \<and> sg = - 1 \<or> upper_blocked fl64 data_zb 0 i \<and> sg = 1))"
proof -
  have h: "fst (casadi_qp_zero_blocking fl64 prob2 data_zb 0 (- 1) 0) \<noteq> 0"
    by (simp add: eval_pb)
  from zero_blocking_pins_tau [OF h] h show ?thesis by blast
qed

text \<open>
  The claim as stated reports the row with the largest violation. Here rows 0 and 1
  both trigger zero blocking, row 0 with a violation of 10 and row 1 with a violation
  of 1, and row 1 is reported.
\<close>

theorem zero_blocking_pins_tau_counterexample:
  "casadi_qp_primal_blocking fl64 prob2 data_zb 0 (- 1) 0 =
     Some (data_zb\<lparr>d_msg := MsgLbzViolated 1, d_tau := 0\<rparr>, 1, - 1) \<and>
   lower_blocked fl64 data_zb 0 0 \<and> lower_blocked fl64 data_zb 0 1 \<and>
   x_sub (d_lbz data_zb ! 0) (d_z data_zb ! 0) = Fin 10 \<and>
   x_sub (d_lbz data_zb ! 1) (d_z data_zb ! 1) = Fin 1"
  by (simp add: eval_pb)

section \<open>Primal blocking in exact arithmetic\<close>

text \<open>The identity as rounding gives the line search over the real numbers.\<close>

lemma x_rnd_id: "x_rnd (\<lambda>x. x) a = a"
  by (cases a) simp_all

lemma lower_step:
  fixes dz :: real
  assumes "dz < 0" and "z + tau * dz < b" and "b < z"
  shows "0 < (b - z) / dz" and "(b - z) / dz \<le> tau" and "z + (b - z) / dz * dz = b"
proof -
  from assms(1,3) show "0 < (b - z) / dz" by (simp add: divide_neg_neg)
  from assms(1) show e: "z + (b - z) / dz * dz = b" by simp
  have "tau * dz < b - z" using assms(2) by linarith
  then have "(b - z) / dz < tau" using assms(1) by (simp add: neg_divide_less_eq)
  then show "(b - z) / dz \<le> tau" by simp
qed

lemma upper_step:
  fixes dz :: real
  assumes "0 < dz" and "b < z + tau * dz" and "z < b"
  shows "0 < (b - z) / dz" and "(b - z) / dz \<le> tau" and "z + (b - z) / dz * dz = b"
proof -
  from assms(1,3) show "0 < (b - z) / dz" by simp
  from assms(1) show e: "z + (b - z) / dz * dz = b" by simp
  have "b - z < tau * dz" using assms(2) by linarith
  then have "(b - z) / dz < tau" using assms(1) by (simp add: pos_divide_less_eq)
  then show "(b - z) / dz \<le> tau" by simp
qed

lemma x_le_Fin_right: "x_le a (Fin u) \<Longrightarrow> u \<le> v \<Longrightarrow> x_le a (Fin v)"
  by (cases a) (auto simp add: x_le_def)

lemma x_le_Fin_left: "x_le (Fin v) b \<Longrightarrow> u \<le> v \<Longrightarrow> x_le (Fin u) b"
  by (cases b) (auto simp add: x_le_def)

lemma dir_ok_mono:
  assumes "dir_ok d e t i" and "t' \<le> t"
  shows "dir_ok d e t' i"
proof -
  have lo: "x_le (x_sub (d_lbz d ! i) e) (Fin (d_z d ! i + t' * d_dz d ! i))" if neg: "d_dz d ! i < 0"
  proof -
    have "d_z d ! i + t * d_dz d ! i \<le> d_z d ! i + t' * d_dz d ! i"
      using assms(2) neg by (simp add: mult_right_mono_neg)
    moreover have "x_le (x_sub (d_lbz d ! i) e) (Fin (d_z d ! i + t * d_dz d ! i))"
      using assms(1) neg by (simp add: dir_ok_def)
    ultimately show ?thesis by (rule x_le_Fin_right [rotated])
  qed
  have hi: "x_le (Fin (d_z d ! i + t' * d_dz d ! i)) (x_add (d_ubz d ! i) e)" if pos: "0 < d_dz d ! i"
  proof -
    have "d_z d ! i + t' * d_dz d ! i \<le> d_z d ! i + t * d_dz d ! i"
      using assms(2) pos by (simp add: mult_right_mono)
    moreover have "x_le (Fin (d_z d ! i + t * d_dz d ! i)) (x_add (d_ubz d ! i) e)"
      using assms(1) pos by (simp add: dir_ok_def)
    ultimately show ?thesis by (rule x_le_Fin_left [rotated])
  qed
  show ?thesis
    by (cases "d_dz d ! i < 0"; cases "0 < d_dz d ! i") (simp_all add: dir_ok_def lo hi)
qed


lemma x_not_lt: "\<not> x_lt a b \<Longrightarrow> x_le b a"
  by (cases a; cases b) (auto simp add: x_le_def)

lemma pb_step_lower:
  assumes "d_dz d1 ! i < 0" and "d_lbz d1 ! i = Fin l"
    and "d_z d1 ! i + d_tau d1 * d_dz d1 ! i < l - e"
  shows "primal_blocking_step (\<lambda>x. x) e i (d1, idx, sg) =
           Some (d1\<lparr>d_tau := (l - e - d_z d1 ! i) / d_dz d1 ! i, d_msg := MsgEnforcingLbz i\<rparr>,
                 (if d_lam d1 ! i < 0 then - 1 else int i), - 1)"
  using assms by (simp add: primal_blocking_step_def x_rnd_id Let_def)

lemma pb_step_upper:
  assumes "0 < d_dz d1 ! i" and "d_ubz d1 ! i = Fin u"
    and "u + e < d_z d1 ! i + d_tau d1 * d_dz d1 ! i"
  shows "primal_blocking_step (\<lambda>x. x) e i (d1, idx, sg) =
           Some (d1\<lparr>d_tau := (u + e - d_z d1 ! i) / d_dz d1 ! i, d_msg := MsgEnforcingUbz i\<rparr>,
                 (if d_lam d1 ! i > 0 then - 1 else int i), 1)"
  using assms by (simp add: primal_blocking_step_def x_rnd_id Let_def)

lemma pb_step_same:
  assumes "\<not> (d_dz d1 ! i < 0 \<and>
               x_lt (Fin (d_z d1 ! i + d_tau d1 * d_dz d1 ! i)) (x_sub (d_lbz d1 ! i) e))"
    and "\<not> (d_dz d1 ! i > 0 \<and>
               x_lt (x_add (d_ubz d1 ! i) e) (Fin (d_z d1 ! i + d_tau d1 * d_dz d1 ! i)))"
  shows "primal_blocking_step (\<lambda>x. x) e i (d1, idx, sg) = Some (d1, idx, sg)"
proof -
  have a: "(d_dz d1 ! i < 0 \<and>
        x_lt (Fin (d_z d1 ! i + d_tau d1 * d_dz d1 ! i)) (x_sub (d_lbz d1 ! i) e)) = False"
    using assms(1) by simp
  have b: "(d_dz d1 ! i > 0 \<and>
        x_lt (x_add (d_ubz d1 ! i) e) (Fin (d_z d1 ! i + d_tau d1 * d_dz d1 ! i))) = False"
    using assms(2) by simp
  show ?thesis
    by (simp only: primal_blocking_step_def x_rnd_id prod.case Let_def a b if_False)
qed


lemma pb_step_ok:
  assumes ag: "agree d d1" and tau: "0 < d_tau d1"
    and nl: "\<not> lower_blocked (\<lambda>x. x) d e i" and nu: "\<not> upper_blocked (\<lambda>x. x) d e i"
  shows "\<exists>d2 idx2 sg2. primal_blocking_step (\<lambda>x. x) e i (d1, idx, sg) = Some (d2, idx2, sg2) \<and>
           agree d d2 \<and> 0 < d_tau d2 \<and> d_tau d2 \<le> d_tau d1 \<and> dir_ok d e (d_tau d2) i"
proof -
  from ag have eq: "d_z d1 = d_z d" "d_dz d1 = d_dz d" "d_lbz d1 = d_lbz d" "d_ubz d1 = d_ubz d"
    by (simp_all add: agree_def)
  let ?z = "d_z d ! i" and ?dz = "d_dz d ! i" and ?t = "d_tau d1"
  let ?lo = "?dz < 0 \<and> x_lt (Fin (?z + ?t * ?dz)) (x_sub (d_lbz d ! i) e)"
  let ?up = "?dz > 0 \<and> x_lt (x_add (d_ubz d ! i) e) (Fin (?z + ?t * ?dz))"
  show ?thesis
  proof (cases ?lo)
    case True
    then have neg: "?dz < 0" by simp
    from True nl obtain l where l: "d_lbz d ! i = Fin l" and lt: "?z + ?t * ?dz < l - e"
      by (cases "d_lbz d ! i") (auto simp add: lower_blocked_def x_rnd_id x_le_def)
    from nl neg l have gt: "l - e < ?z" by (auto simp add: lower_blocked_def x_rnd_id x_le_def)
    note ls = lower_step [OF neg lt gt]
    let ?d2 = "d1\<lparr>d_tau := (l - e - ?z) / ?dz, d_msg := MsgEnforcingLbz i\<rparr>"
    have st: "primal_blocking_step (\<lambda>x. x) e i (d1, idx, sg) =
                Some (?d2, (if d_lam d1 ! i < 0 then - 1 else int i), - 1)"
      using pb_step_lower [of d1 i l e idx sg] neg l lt eq by simp
    have ok: "dir_ok d e ((l - e - ?z) / ?dz) i"
      using neg l ls(3) by (simp add: dir_ok_def x_le_def)
    show ?thesis
    proof (intro exI conjI)
      show "primal_blocking_step (\<lambda>x. x) e i (d1, idx, sg) =
              Some (?d2, (if d_lam d1 ! i < 0 then - 1 else int i), - 1)"
        by (rule st)
      show "agree d ?d2" by (rule agree_tau_msg [OF ag])
      show "0 < d_tau ?d2" using ls(1) by simp
      show "d_tau ?d2 \<le> d_tau d1" using ls(2) by simp
      show "dir_ok d e (d_tau ?d2) i" using ok by simp
    qed
  next
    case False
    note nlo = False
    show ?thesis
    proof (cases ?up)
      case True
      then have pos: "0 < ?dz" by simp
      from True nu obtain u where u: "d_ubz d ! i = Fin u" and lt: "u + e < ?z + ?t * ?dz"
        by (cases "d_ubz d ! i") (auto simp add: upper_blocked_def x_rnd_id x_le_def)
      from nu pos u have gt: "?z < u + e" by (auto simp add: upper_blocked_def x_rnd_id x_le_def)
      note us = upper_step [OF pos lt gt]
      let ?d2 = "d1\<lparr>d_tau := (u + e - ?z) / ?dz, d_msg := MsgEnforcingUbz i\<rparr>"
      have st: "primal_blocking_step (\<lambda>x. x) e i (d1, idx, sg) =
                  Some (?d2, (if d_lam d1 ! i > 0 then - 1 else int i), 1)"
        using pb_step_upper [of d1 i u e idx sg] pos u lt eq by simp
      have ok: "dir_ok d e ((u + e - ?z) / ?dz) i"
        using pos u us(3) by (simp add: dir_ok_def x_le_def)
      show ?thesis
      proof (intro exI conjI)
        show "primal_blocking_step (\<lambda>x. x) e i (d1, idx, sg) =
                Some (?d2, (if d_lam d1 ! i > 0 then - 1 else int i), 1)"
          by (rule st)
        show "agree d ?d2" by (rule agree_tau_msg [OF ag])
        show "0 < d_tau ?d2" using us(1) by simp
        show "d_tau ?d2 \<le> d_tau d1" using us(2) by simp
        show "dir_ok d e (d_tau ?d2) i" using ok by simp
      qed
    next
      case False
      have st: "primal_blocking_step (\<lambda>x. x) e i (d1, idx, sg) = Some (d1, idx, sg)"
        using pb_step_same [of d1 i e idx sg] nlo False eq by simp
      have ok: "dir_ok d e ?t i"
        using nlo False x_not_lt by (auto simp add: dir_ok_def)
      show ?thesis
      proof (intro exI conjI)
        show "primal_blocking_step (\<lambda>x. x) e i (d1, idx, sg) = Some (d1, idx, sg)" by (rule st)
        show "agree d d1" by (rule ag)
        show "0 < d_tau d1" by (rule tau)
        show "d_tau d1 \<le> d_tau d1" by simp
        show "dir_ok d e (d_tau d1) i" by (rule ok)
      qed
    qed
  qed
qed


lemma dir_ok_zero_step: "d_dz d ! i = 0 \<Longrightarrow> dir_ok d e t i"
  by (simp add: dir_ok_def)

lemma pb_loop_pos:
  assumes "agree d d1" and "0 < d_tau d1"
    and "\<forall>i \<in> set js. \<not> lower_blocked (\<lambda>x. x) d e i \<and> \<not> upper_blocked (\<lambda>x. x) d e i"
  shows "\<exists>d2 idx2 sg2. primal_blocking_loop (\<lambda>x. x) e js (d1, idx, sg) = Some (d2, idx2, sg2) \<and>
           agree d d2 \<and> 0 < d_tau d2 \<and> d_tau d2 \<le> d_tau d1 \<and>
           (\<forall>i \<in> set js. dir_ok d e (d_tau d2) i)"
  using assms
proof (induction js arbitrary: d1 idx sg)
  case Nil
  show ?case
  proof (intro exI conjI)
    show "primal_blocking_loop (\<lambda>x. x) e [] (d1, idx, sg) = Some (d1, idx, sg)" by simp
    show "agree d d1" by (rule Nil(1))
    show "0 < d_tau d1" by (rule Nil(2))
    show "d_tau d1 \<le> d_tau d1" by simp
    show "\<forall>i \<in> set []. dir_ok d e (d_tau d1) i" by simp
  qed
next
  case (Cons j js)
  from Cons.prems(1) have dz: "d_dz d1 = d_dz d" by (simp add: agree_def)
  from Cons.prems(3) have nbj: "\<not> lower_blocked (\<lambda>x. x) d e j" "\<not> upper_blocked (\<lambda>x. x) d e j"
    and nbs: "\<forall>i \<in> set js. \<not> lower_blocked (\<lambda>x. x) d e i \<and> \<not> upper_blocked (\<lambda>x. x) d e i"
    by simp_all
  show ?case
  proof (cases "d_dz d ! j = 0")
    case True
    from Cons.IH [OF Cons.prems(1,2) nbs, of idx sg] obtain d2 idx2 sg2 where
      r: "primal_blocking_loop (\<lambda>x. x) e js (d1, idx, sg) = Some (d2, idx2, sg2)"
      and p: "agree d d2" "0 < d_tau d2" "d_tau d2 \<le> d_tau d1"
        "\<forall>i \<in> set js. dir_ok d e (d_tau d2) i"
      by blast
    have l: "primal_blocking_loop (\<lambda>x. x) e (j # js) (d1, idx, sg) = Some (d2, idx2, sg2)"
      using True dz r by simp
    have "\<forall>i \<in> set (j # js). dir_ok d e (d_tau d2) i"
      using p(4) dir_ok_zero_step [OF True] by simp
    with l p(1,2,3) show ?thesis by blast
  next
    case False
    from pb_step_ok [OF Cons.prems(1,2) nbj, of idx sg] obtain d1' idx1 sg1 where
      st: "primal_blocking_step (\<lambda>x. x) e j (d1, idx, sg) = Some (d1', idx1, sg1)"
      and q: "agree d d1'" "0 < d_tau d1'" "d_tau d1' \<le> d_tau d1" "dir_ok d e (d_tau d1') j"
      by blast
    from Cons.IH [OF q(1,2) nbs, of idx1 sg1] obtain d2 idx2 sg2 where
      r: "primal_blocking_loop (\<lambda>x. x) e js (d1', idx1, sg1) = Some (d2, idx2, sg2)"
      and p: "agree d d2" "0 < d_tau d2" "d_tau d2 \<le> d_tau d1'"
        "\<forall>i \<in> set js. dir_ok d e (d_tau d2) i"
      by blast
    have l: "primal_blocking_loop (\<lambda>x. x) e (j # js) (d1, idx, sg) = Some (d2, idx2, sg2)"
      using False dz st q(2) r by simp
    have "dir_ok d e (d_tau d2) j" using dir_ok_mono [OF q(4) p(3)] .
    then have a: "\<forall>i \<in> set (j # js). dir_ok d e (d_tau d2) i" using p(4) by simp
    have "d_tau d2 \<le> d_tau d1" using p(3) q(3) by linarith
    with l p(1,2) a show ?thesis by blast
  qed
qed

lemma pb_loop_zero:
  assumes "agree d d1" and "d_tau d1 = 0"
    and "\<forall>i \<in> set js. \<not> lower_blocked (\<lambda>x. x) d e i \<and> \<not> upper_blocked (\<lambda>x. x) d e i"
  shows "\<exists>d2 idx2 sg2. primal_blocking_loop (\<lambda>x. x) e js (d1, idx, sg) = Some (d2, idx2, sg2) \<and>
           agree d d2 \<and> d_tau d2 = 0"
  using assms
proof (induction js arbitrary: d1 idx sg)
  case Nil
  then show ?case by simp
next
  case (Cons j js)
  from Cons.prems(1) have eq: "d_z d1 = d_z d" "d_dz d1 = d_dz d" "d_lbz d1 = d_lbz d"
      "d_ubz d1 = d_ubz d"
    by (simp_all add: agree_def)
  from Cons.prems(3) have nbj: "\<not> lower_blocked (\<lambda>x. x) d e j" "\<not> upper_blocked (\<lambda>x. x) d e j"
    and nbs: "\<forall>i \<in> set js. \<not> lower_blocked (\<lambda>x. x) d e i \<and> \<not> upper_blocked (\<lambda>x. x) d e i"
    by simp_all
  show ?case
  proof (cases "d_dz d ! j = 0")
    case True
    with Cons.IH [OF Cons.prems(1,2) nbs, of idx sg] eq show ?thesis by simp
  next
    case False
    have a: "\<not> (d_dz d1 ! j < 0 \<and>
               x_lt (Fin (d_z d1 ! j + d_tau d1 * d_dz d1 ! j)) (x_sub (d_lbz d1 ! j) e))"
      using nbj(1) eq Cons.prems(2) by (auto simp add: lower_blocked_def x_rnd_id x_le_def)
    have b: "\<not> (d_dz d1 ! j > 0 \<and>
               x_lt (x_add (d_ubz d1 ! j) e) (Fin (d_z d1 ! j + d_tau d1 * d_dz d1 ! j)))"
      using nbj(2) eq Cons.prems(2) by (auto simp add: upper_blocked_def x_rnd_id x_le_def)
    have "primal_blocking_loop (\<lambda>x. x) e (j # js) (d1, idx, sg) = Some (d1, idx, sg)"
      using False eq pb_step_same [OF a b, of idx sg] Cons.prems(2) by simp
    with Cons.prems(1,2) show ?thesis by simp
  qed
qed


lemma within_from_dir:
  assumes "dir_ok d e t i" and "0 \<le> t" and "within_bounds d e 0 i"
  shows "within_bounds d e t i"
proof -
  have lo: "x_le (x_sub (d_lbz d ! i) e) (Fin (d_z d ! i + t * d_dz d ! i))"
  proof (cases "d_dz d ! i < 0")
    case True
    with assms(1) show ?thesis by (simp add: dir_ok_def)
  next
    case False
    then have "d_z d ! i \<le> d_z d ! i + t * d_dz d ! i" using assms(2) by simp
    moreover have "x_le (x_sub (d_lbz d ! i) e) (Fin (d_z d ! i))"
      using assms(3) by (simp add: within_bounds_def)
    ultimately show ?thesis by (rule x_le_Fin_right [rotated])
  qed
  have hi: "x_le (Fin (d_z d ! i + t * d_dz d ! i)) (x_add (d_ubz d ! i) e)"
  proof (cases "0 < d_dz d ! i")
    case True
    with assms(1) show ?thesis by (simp add: dir_ok_def)
  next
    case False
    then have "d_z d ! i + t * d_dz d ! i \<le> d_z d ! i"
      using assms(2) by (simp add: mult_nonneg_nonpos)
    moreover have "x_le (Fin (d_z d ! i)) (x_add (d_ubz d ! i) e)"
      using assms(3) by (simp add: within_bounds_def)
    ultimately show ?thesis by (rule x_le_Fin_left [rotated])
  qed
  from lo hi show ?thesis by (simp add: within_bounds_def)
qed

text \<open>
  In exact arithmetic, when zero blocking reports nothing and the incoming step length
  is not negative, \<open>casadi_qp_primal_blocking\<close> accepts a step length between zero
  and the incoming one, and every row that is within \<open>e\<close> of its bounds before the
  step is within \<open>e\<close> of its bounds after the accepted step.
\<close>

lemma primal_blocking_within_exact:
  assumes nb: "fst (casadi_qp_zero_blocking (\<lambda>x. x) p d e index sign) = 0"
    and tau: "0 \<le> d_tau d" and i: "i < p_nz p" and w: "within_bounds d e 0 i"
  shows "\<exists>d' idx sg. casadi_qp_primal_blocking (\<lambda>x. x) p d e index sign = Some (d', idx, sg) \<and>
           0 \<le> d_tau d' \<and> d_tau d' \<le> d_tau d \<and> within_bounds d e (d_tau d') i"
proof -
  note zb = zero_blocking_none [OF nb]
  have pb: "casadi_qp_primal_blocking (\<lambda>x. x) p d e index sign =
              primal_blocking_loop (\<lambda>x. x) e [0..<p_nz p] (d, index, sign)"
    by (simp add: casadi_qp_primal_blocking_def zb(1))
  have mem: "i \<in> set [0..<p_nz p]" using i by simp
  show ?thesis
  proof (cases "d_tau d = 0")
    case True
    from pb_loop_zero [OF agree_refl True zb(2), of index sign] obtain d2 idx2 sg2 where
      r: "primal_blocking_loop (\<lambda>x. x) e [0..<p_nz p] (d, index, sign) = Some (d2, idx2, sg2)"
      and t: "d_tau d2 = 0"
      by blast
    show ?thesis
    proof (intro exI conjI)
      show "casadi_qp_primal_blocking (\<lambda>x. x) p d e index sign = Some (d2, idx2, sg2)"
        using pb r by simp
      show "0 \<le> d_tau d2" using t by simp
      show "d_tau d2 \<le> d_tau d" using t True by simp
      show "within_bounds d e (d_tau d2) i" using t w by simp
    qed
  next
    case False
    with tau have pos: "0 < d_tau d" by simp
    from pb_loop_pos [OF agree_refl pos zb(2), of index sign] obtain d2 idx2 sg2 where
      r: "primal_blocking_loop (\<lambda>x. x) e [0..<p_nz p] (d, index, sign) = Some (d2, idx2, sg2)"
      and t: "0 < d_tau d2" "d_tau d2 \<le> d_tau d"
      and ok: "\<forall>i \<in> set [0..<p_nz p]. dir_ok d e (d_tau d2) i"
      by blast
    from ok mem have dk: "dir_ok d e (d_tau d2) i" by blast
    have nn: "0 \<le> d_tau d2" using t(1) by simp
    have wb: "within_bounds d e (d_tau d2) i"
      by (rule within_from_dir [OF dk nn w])
    show ?thesis
    proof (intro exI conjI)
      show "casadi_qp_primal_blocking (\<lambda>x. x) p d e index sign = Some (d2, idx2, sg2)"
        using pb r by simp
      show "0 \<le> d_tau d2" using t(1) by simp
      show "d_tau d2 \<le> d_tau d" by (rule t(2))
      show "within_bounds d e (d_tau d2) i" by (rule wb)
    qed
  qed
qed
section \<open>The index that reduces the dual error\<close>

lemma du_index_step_skip:
  "\<not> du_candidate p d w i \<Longrightarrow> du_index_step p d w i s = s"
  by (auto simp add: du_index_step_def du_candidate_def)

lemma du_index_step_take:
  "du_candidate p d w i \<Longrightarrow>
   du_index_step p d w i s = (if \<bar>w ! i\<bar> > snd s then (int i, \<bar>w ! i\<bar>) else s)"
  by (auto simp add: du_index_step_def du_candidate_def)

lemma du_best_none:
  "\<not> (\<exists>i. i < n \<and> du_candidate p d w i) \<Longrightarrow> du_best p d w n r = (r = - 1)"
  unfolding du_best_def by (simp only: if_False)

lemma du_best_some:
  "\<exists>i. i < n \<and> du_candidate p d w i \<Longrightarrow>
   du_best p d w n r =
     (0 \<le> r \<and> nat r < n \<and> du_candidate p d w (nat r) \<and>
      (\<forall>j. j < n \<and> du_candidate p d w j \<longrightarrow>
           \<bar>w ! j\<bar> \<le> \<bar>w ! nat r\<bar> \<and> (\<bar>w ! j\<bar> = \<bar>w ! nat r\<bar> \<longrightarrow> nat r \<le> j)))"
  unfolding du_best_def by (simp only: if_True)

lemma du_search_step:
  assumes inv: "du_search_inv p d w n s"
  shows "du_search_inv p d w (Suc n) (du_index_step p d w n s)"
proof (cases "du_candidate p d w n")
  case False
  have ex: "(\<exists>i. i < Suc n \<and> du_candidate p d w i) = (\<exists>i. i < n \<and> du_candidate p d w i)"
    using False by (auto simp add: less_Suc_eq)
  have "du_best p d w (Suc n) (fst s) = du_best p d w n (fst s)"
    using False ex by (auto simp add: du_best_def less_Suc_eq)
  with inv show ?thesis
    by (simp add: du_index_step_skip [OF False] du_search_inv_def)
next
  case True
  then have wn: "w ! n \<noteq> 0" by (simp add: du_candidate_def)
  have exS: "\<exists>i. i < Suc n \<and> du_candidate p d w i" using True by blast
  show ?thesis
  proof (cases "\<exists>i. i < n \<and> du_candidate p d w i")
    case False
    with inv have s: "fst s = - 1" "snd s = 0"
      by (simp_all add: du_search_inv_def du_best_none)
    have st: "du_index_step p d w n s = (int n, \<bar>w ! n\<bar>)"
      using wn s by (simp add: du_index_step_take [OF True])
    have "du_best p d w (Suc n) (int n)"
      unfolding du_best_some [OF exS] using True False by (auto simp add: less_Suc_eq)
    then show ?thesis by (simp add: st du_search_inv_def)
  next
    case ex: True
    from inv have b: "0 \<le> fst s" "nat (fst s) < n" "du_candidate p d w (nat (fst s))"
      and best: "\<forall>j. j < n \<and> du_candidate p d w j \<longrightarrow>
           \<bar>w ! j\<bar> \<le> \<bar>w ! nat (fst s)\<bar> \<and> (\<bar>w ! j\<bar> = \<bar>w ! nat (fst s)\<bar> \<longrightarrow> nat (fst s) \<le> j)"
      and bw: "snd s = \<bar>w ! nat (fst s)\<bar>"
      using du_best_some [OF ex, of "fst s"] by (auto simp add: du_search_inv_def)
    show ?thesis
    proof (cases "\<bar>w ! n\<bar> > snd s")
      case True
      have st: "du_index_step p d w n s = (int n, \<bar>w ! n\<bar>)"
        using True by (simp add: du_index_step_take [OF \<open>du_candidate p d w n\<close>])
      have "\<forall>j. j < Suc n \<and> du_candidate p d w j \<longrightarrow>
           \<bar>w ! j\<bar> \<le> \<bar>w ! n\<bar> \<and> (\<bar>w ! j\<bar> = \<bar>w ! n\<bar> \<longrightarrow> n \<le> j)"
      proof (intro allI impI)
        fix j assume j: "j < Suc n \<and> du_candidate p d w j"
        show "\<bar>w ! j\<bar> \<le> \<bar>w ! n\<bar> \<and> (\<bar>w ! j\<bar> = \<bar>w ! n\<bar> \<longrightarrow> n \<le> j)"
        proof (cases "j = n")
          case True
          then show ?thesis by simp
        next
          case False
          with j have "j < n" by simp
          with j best have "\<bar>w ! j\<bar> \<le> \<bar>w ! nat (fst s)\<bar>" by blast
          with bw True show ?thesis by simp
        qed
      qed
      then have "du_best p d w (Suc n) (int n)"
        unfolding du_best_some [OF exS] using \<open>du_candidate p d w n\<close> by simp
      then show ?thesis by (simp add: st du_search_inv_def)
    next
      case False
      have st: "du_index_step p d w n s = s"
        using False by (simp add: du_index_step_take [OF \<open>du_candidate p d w n\<close>])
      have "\<forall>j. j < Suc n \<and> du_candidate p d w j \<longrightarrow>
           \<bar>w ! j\<bar> \<le> \<bar>w ! nat (fst s)\<bar> \<and> (\<bar>w ! j\<bar> = \<bar>w ! nat (fst s)\<bar> \<longrightarrow> nat (fst s) \<le> j)"
      proof (intro allI impI)
        fix j assume j: "j < Suc n \<and> du_candidate p d w j"
        show "\<bar>w ! j\<bar> \<le> \<bar>w ! nat (fst s)\<bar> \<and> (\<bar>w ! j\<bar> = \<bar>w ! nat (fst s)\<bar> \<longrightarrow> nat (fst s) \<le> j)"
        proof (cases "j = n")
          case True
          with False bw b(2) show ?thesis by simp
        next
          case False
          with j have "j < n" by simp
          with j best show ?thesis by blast
        qed
      qed
      then have "du_best p d w (Suc n) (fst s)"
        unfolding du_best_some [OF exS] using b by simp
      with inv show ?thesis by (simp add: st du_search_inv_def)
    qed
  qed
qed

lemma du_search_fold:
  "du_search_inv p d w n (fold (du_index_step p d w) [0..<n] (- 1, 0))"
proof (induction n)
  case 0
  show ?case by (simp add: du_search_inv_def du_best_def)
next
  case (Suc n)
  have "fold (du_index_step p d w) [0..<Suc n] (- 1, 0)
          = du_index_step p d w n (fold (du_index_step p d w) [0..<n] (- 1, 0))"
    by simp
  with du_search_step [OF Suc] show ?case by (simp only:)
qed

text \<open>
  C8. With \<open>idu\<close> a valid index, \<open>casadi_qp_du_index\<close> returns the candidate with
  the largest sensitivity in absolute value, the smallest index among equals, and -1 when
  no row is a candidate. The sensitivity vector is the one the function computes.
\<close>

theorem du_index_best:
  assumes "0 \<le> d_idu d"
  shows "\<exists>r sg d'. casadi_qp_du_index p d sign = Some (r, sg, d') \<and>
           du_best p d (du_sens p d) (p_nz p) r"
proof -
  let ?w = "du_sens p d"
  let ?s = "fold (du_index_step p d ?w) [0..<p_nz p] (- 1, 0)"
  have inv: "du_search_inv p d ?w (p_nz p) ?s" by (rule du_search_fold)
  then have best: "du_best p d ?w (p_nz p) (fst ?s)" by (simp add: du_search_inv_def)
  show ?thesis
  proof (cases "fst ?s \<ge> 0")
    case True
    have "casadi_qp_du_index p d sign =
            Some (fst ?s, 0, d\<lparr>d_w := ?w, d_msg := MsgRemoved (fst ?s)\<rparr>)"
      using assms True by (simp add: casadi_qp_du_index_def Let_def)
    with best show ?thesis by blast
  next
    case False
    have ne: "\<not> (\<exists>i. i < p_nz p \<and> du_candidate p d ?w i)"
    proof
      assume "\<exists>i. i < p_nz p \<and> du_candidate p d ?w i"
      from best [unfolded du_best_some [OF this]] False show False by simp
    qed
    with best have m: "fst ?s = - 1" by (simp add: du_best_none)
    have "casadi_qp_du_index p d sign = Some (- 1, sign, d\<lparr>d_w := ?w\<rparr>)"
      using assms False by (simp add: casadi_qp_du_index_def Let_def)
    with best m show ?thesis by auto
  qed
qed

lemmas eval_du = casadi_qp_du_index_def du_sens_def du_index_step_def casadi_qp_du_check_def
  casadi_fill_def casadi_mv_def mv_entry_def colind_def rowind_def prob_a2_def data_a2_def data0_def
  upt_conv_Cons Let_def

theorem du_index_best_witness:
  "0 \<le> d_idu data_a2 \<and>
   casadi_qp_du_index prob_a2 data_a2 0 =
     Some (1, 0, data_a2\<lparr>d_w := [- 1, - 1, - 1, 0, 0, 0], d_msg := MsgRemoved 1\<rparr>) \<and>
   du_candidate prob_a2 data_a2 (du_sens prob_a2 data_a2) 1 \<and>
   du_candidate prob_a2 data_a2 (du_sens prob_a2 data_a2) 2 \<and>
   \<bar>du_sens prob_a2 data_a2 ! 1\<bar> = \<bar>du_sens prob_a2 data_a2 ! 2\<bar> \<and>
   du_best prob_a2 data_a2 (du_sens prob_a2 data_a2) (p_nz prob_a2) 1"
proof -
  have h: "0 \<le> d_idu data_a2" by (simp add: data_a2_def data0_def)
  have r: "casadi_qp_du_index prob_a2 data_a2 0 =
     Some (1, 0, data_a2\<lparr>d_w := [- 1, - 1, - 1, 0, 0, 0], d_msg := MsgRemoved 1\<rparr>)"
    by (simp add: eval_du)
  have c: "du_candidate prob_a2 data_a2 (du_sens prob_a2 data_a2) 1 \<and>
           du_candidate prob_a2 data_a2 (du_sens prob_a2 data_a2) 2 \<and>
           \<bar>du_sens prob_a2 data_a2 ! 1\<bar> = \<bar>du_sens prob_a2 data_a2 ! 2\<bar>"
    by (simp add: du_candidate_def eval_du)
  from du_index_best [OF h, of prob_a2 0] r
  have "du_best prob_a2 data_a2 (du_sens prob_a2 data_a2) (p_nz prob_a2) 1" by auto
  with h r c show ?thesis by simp
qed

section \<open>Dual breakpoints\<close>

lemma find_loc_upt:
  "a \<le> b \<Longrightarrow>
   a \<le> find_loc x ts [a..<b] b \<and> find_loc x ts [a..<b] b \<le> b \<and>
   (\<forall>k. a \<le> k \<and> k < find_loc x ts [a..<b] b \<longrightarrow> \<not> x < ts ! k) \<and>
   (find_loc x ts [a..<b] b < b \<longrightarrow> x < ts ! find_loc x ts [a..<b] b)"
proof (induction "b - a" arbitrary: a)
  case 0
  then show ?case by simp
next
  case (Suc m)
  then have lt: "a < b" and m: "m = b - Suc a" and le: "Suc a \<le> b" by simp_all
  have u: "[a..<b] = a # [Suc a..<b]" using lt by (simp add: upt_conv_Cons)
  show ?case
  proof (cases "x < ts ! a")
    case True
    then have "find_loc x ts [a..<b] b = a" by (simp add: u)
    with True lt show ?thesis by simp
  next
    case False
    then have f: "find_loc x ts [a..<b] b = find_loc x ts [Suc a..<b] b" by (simp add: u)
    note ih = Suc.hyps(1) [OF m le]
    have "\<forall>k. a \<le> k \<and> k < find_loc x ts [Suc a..<b] b \<longrightarrow> \<not> x < ts ! k"
    proof (intro allI impI)
      fix k assume k: "a \<le> k \<and> k < find_loc x ts [Suc a..<b] b"
      show "\<not> x < ts ! k"
      proof (cases "k = a")
        case True
        with False show ?thesis by simp
      next
        case False
        with k have "Suc a \<le> k" by simp
        with k ih show ?thesis by blast
      qed
    qed
    with ih show ?thesis unfolding f by simp
  qed
qed


lemma ins_at_shift:
  "loc < length xs \<Longrightarrow> ins_at (Suc loc) (xs ! loc) (xs[loc := x]) = ins_at loc x xs"
  by (simp add: ins_at_def take_Suc_conv_app_nth Cons_nth_drop_Suc)

lemma ins_at_end: "ins_at (length xs) x xs = xs @ [x]"
  by (simp add: ins_at_def)

lemma take_Suc_update: "loc < length xs \<Longrightarrow> take (Suc loc) (xs[loc := x]) = take loc xs @ [x]"
  by (simp add: take_Suc_conv_app_nth)

lemma insert_fold:
  assumes "loc < m" and "m \<le> length ts" and "m \<le> length ns"
  shows "\<exists>a b ts' ns'. fold insert_step [loc..<m] (nt, ni, ts, ns) = (a, b, ts', ns') \<and>
           length ts' = length ts \<and> length ns' = length ns \<and>
           take m ts' = ins_at loc nt (take (m - 1) ts) \<and>
           take m ns' = ins_at loc ni (take (m - 1) ns)"
  using assms
proof (induction "m - loc" arbitrary: loc nt ni ts ns)
  case 0
  then show ?case by simp
next
  case (Suc k)
  have u: "[loc..<m] = loc # [Suc loc..<m]" using Suc.prems(1) by (simp add: upt_conv_Cons)
  have st: "fold insert_step [loc..<m] (nt, ni, ts, ns) =
              fold insert_step [Suc loc..<m] (ts ! loc, ns ! loc, ts[loc := nt], ns[loc := ni])"
    by (simp add: u insert_step_def)
  show ?case
  proof (cases "Suc loc = m")
    case True
    then have e: "[Suc loc..<m] = []" by simp
    have l: "loc = m - 1" using True by simp
    have lts: "loc < length ts" and lns: "loc < length ns"
      using True Suc.prems(2,3) by simp_all
    have "take m (ts[loc := nt]) = ins_at loc nt (take (m - 1) ts)"
      using take_Suc_update [OF lts, of nt] lts
      by (simp add: True [symmetric] ins_at_def)
    moreover have "take m (ns[loc := ni]) = ins_at loc ni (take (m - 1) ns)"
      using take_Suc_update [OF lns, of ni] lns
      by (simp add: True [symmetric] ins_at_def)
    ultimately show ?thesis unfolding st e by simp
  next
    case False
    with Suc.prems(1) have lt: "Suc loc < m" by simp
    have k: "k = m - Suc loc" using Suc.hyps(2) by simp
    have len: "m \<le> length (ts[loc := nt])" "m \<le> length (ns[loc := ni])"
      using Suc.prems(2,3) by simp_all
    from Suc.hyps(1) [OF k lt len, of "ts ! loc" "ns ! loc"] obtain a b ts' ns' where
      r: "fold insert_step [Suc loc..<m] (ts ! loc, ns ! loc, ts[loc := nt], ns[loc := ni])
            = (a, b, ts', ns')"
      and p: "length ts' = length ts" "length ns' = length ns"
        "take m ts' = ins_at (Suc loc) (ts ! loc) (take (m - 1) (ts[loc := nt]))"
        "take m ns' = ins_at (Suc loc) (ns ! loc) (take (m - 1) (ns[loc := ni]))"
      by auto
    have l1: "loc < length (take (m - 1) ts)" "loc < length (take (m - 1) ns)"
      using lt Suc.prems(2,3) by simp_all
    have t: "take m ts' = ins_at loc nt (take (m - 1) ts)"
      using ins_at_shift [OF l1(1), of nt] lt p(3) by (simp add: take_update_swap)
    have n: "take m ns' = ins_at loc ni (take (m - 1) ns)"
      using ins_at_shift [OF l1(2), of ni] lt p(4) by (simp add: take_update_swap)
    show ?thesis unfolding st r using p(1,2) t n by simp
  qed
qed


lemma bp_step_skip:
  "\<not> crossing d tau i \<Longrightarrow> dual_breakpoints_step d tau i s = s"
  by (cases s) (auto simp add: dual_breakpoints_step_def crossing_def Let_def)

lemma bp_step_cross:
  "crossing d tau i \<Longrightarrow>
   dual_breakpoints_step d tau i (n, ts, ns) =
     (case fold insert_step
             [find_loc (fst (breakpoint d i)) ts [0..<n - 1] (n - 1)..<Suc n]
             (fst (breakpoint d i), int i, ts, ns) of
        (a, b, ts', ns') \<Rightarrow> (Suc n, ts', ns'))"
  by (auto simp add: dual_breakpoints_step_def crossing_def breakpoint_def Let_def)

lemma crossing_le:
  assumes "crossing d tau i" and "0 \<le> tau"
  shows "fst (breakpoint d i) \<le> tau"
proof -
  let ?l = "d_lam d ! i" and ?dl = "d_dlam d ! i"
  from assms(1) consider
    (pos) "?l > 0" "?l + tau * ?dl < 0" | (neg) "?l < 0" "?l + tau * ?dl > 0"
    by (auto simp add: crossing_def)
  then show ?thesis
  proof cases
    case pos
    then have "tau * ?dl < 0" by linarith
    with assms(2) have dl: "?dl < 0" by (simp add: mult_less_0_iff)
    from pos have "tau * ?dl \<le> - ?l" by linarith
    with dl have "(- ?l) / ?dl \<le> tau" by (simp only: neg_divide_le_eq)
    then show ?thesis by (simp add: breakpoint_def)
  next
    case neg
    then have "0 < tau * ?dl" by linarith
    with assms(2) have dl: "0 < ?dl" by (simp add: zero_less_mult_iff)
    from neg have "- ?l \<le> tau * ?dl" by linarith
    with dl have "(- ?l) / ?dl \<le> tau" by (simp only: pos_divide_le_eq)
    then show ?thesis by (simp add: breakpoint_def)
  qed
qed

lemma ins_at_nth_after: "k < j \<Longrightarrow> j \<le> length xs \<Longrightarrow> ins_at k x xs ! j = xs ! (j - 1)"
  by (cases j) (auto simp add: ins_at_def nth_append min_def nth_Cons')

lemma take_ins_at: "k \<le> m \<Longrightarrow> take (Suc m) (ins_at k x xs) = ins_at k x (take m xs)"
  by (simp add: ins_at_def min_def drop_take Suc_diff_le)

lemma zip_ins_at:
  "length xs = length ys \<Longrightarrow> zip (ins_at k x xs) (ins_at k y ys) = ins_at k (x, y) (zip xs ys)"
  by (simp add: ins_at_def take_zip drop_zip)

lemma mset_ins_at: "mset (ins_at k x xs) = add_mset x (mset xs)"
proof -
  have "mset (take k xs) + mset (drop k xs) = mset xs"
    by (metis append_take_drop_id mset_append)
  then show ?thesis by (simp add: ins_at_def)
qed

lemma set_ins_at: "set (ins_at k x xs) = insert x (set xs)"
proof -
  have "set (take k xs) \<union> set (drop k xs) = set xs"
    by (metis append_take_drop_id set_append)
  then show ?thesis by (auto simp add: ins_at_def)
qed

lemma sorted_ins_at:
  fixes x :: real
  assumes "sorted xs" and "k \<le> length xs"
    and "\<forall>j. j < k \<longrightarrow> \<not> x < xs ! j" and "k < length xs \<longrightarrow> x < xs ! k"
  shows "sorted (ins_at k x xs)"
proof -
  have a: "\<forall>y \<in> set (take k xs). y \<le> x"
  proof
    fix y assume "y \<in> set (take k xs)"
    then obtain j where "j < length (take k xs)" "y = take k xs ! j"
      by (auto simp add: in_set_conv_nth)
    with assms(3) show "y \<le> x" by auto
  qed
  have b: "\<forall>y \<in> set (drop k xs). x \<le> y"
  proof
    fix y assume "y \<in> set (drop k xs)"
    then obtain j where j: "j < length (drop k xs)" "y = drop k xs ! j"
      by (auto simp add: in_set_conv_nth)
    then have kl: "k < length xs" and y: "y = xs ! (k + j)" and kj: "k + j < length xs"
      by auto
    from assms(1) kj have "xs ! k \<le> xs ! (k + j)" by (simp add: sorted_nth_mono)
    with assms(4) kl y show "x \<le> y" by simp
  qed
  have c: "\<forall>y \<in> set (take k xs). \<forall>z \<in> set (drop k xs). y \<le> z"
    using a b by force
  have st: "sorted (take k xs)" and sd: "sorted (drop k xs)"
    using assms(1) by (simp_all add: sorted_wrt_take sorted_wrt_drop)
  show ?thesis
    using st sd a b c by (simp add: ins_at_def sorted_append)
qed


lemma bp_invD:
  assumes "bp_inv d tau js (n, ts, ns)"
  shows "n = Suc (length (filter (crossing d tau) js))"
    and "ts ! (n - 1) = tau" and "ns ! (n - 1) = - 1"
    and "sorted (take (n - 1) ts)" and "\<forall>y \<in> set (take (n - 1) ts). y \<le> tau"
    and "mset (zip (take (n - 1) ts) (take (n - 1) ns)) =
           mset (map (breakpoint d) (filter (crossing d tau) js))"
  using assms unfolding bp_inv_def prod.case by blast+

lemma bp_invI:
  assumes "n = Suc (length (filter (crossing d tau) js))"
    and "ts ! (n - 1) = tau" and "ns ! (n - 1) = - 1"
    and "sorted (take (n - 1) ts)" and "\<forall>y \<in> set (take (n - 1) ts). y \<le> tau"
    and "mset (zip (take (n - 1) ts) (take (n - 1) ns)) =
           mset (map (breakpoint d) (filter (crossing d tau) js))"
  shows "bp_inv d tau js (n, ts, ns)"
  using assms unfolding bp_inv_def prod.case by blast

lemma bp_step:
  assumes inv: "bp_inv d tau js (n, ts, ns)" and tau: "0 \<le> tau"
    and room: "crossing d tau i \<Longrightarrow> Suc n \<le> length ts \<and> Suc n \<le> length ns"
  shows "\<exists>n' ts' ns'. dual_breakpoints_step d tau i (n, ts, ns) = (n', ts', ns') \<and>
           bp_inv d tau (js @ [i]) (n', ts', ns') \<and>
           length ts' = length ts \<and> length ns' = length ns"
proof (cases "crossing d tau i")
  case False
  have f: "filter (crossing d tau) (js @ [i]) = filter (crossing d tau) js"
    using False by simp
  have "bp_inv d tau (js @ [i]) (n, ts, ns)"
    using inv by (simp only: bp_inv_def f)
  then show ?thesis using bp_step_skip [OF False, of "(n, ts, ns)"] by simp
next
  case True
  from room [OF True] have len: "Suc n \<le> length ts" "Suc n \<le> length ns" by simp_all
  let ?x = "fst (breakpoint d i)"
  let ?loc = "find_loc ?x ts [0..<n - 1] (n - 1)"
  let ?B = "take (n - 1) ts" and ?C = "take (n - 1) ns"
  note n = bp_invD(1) [OF inv] and last = bp_invD(2,3) [OF inv]
    and srt = bp_invD(4) [OF inv] and bnd = bp_invD(5) [OF inv] and ms = bp_invD(6) [OF inv]
  from n have n1: "1 \<le> n" by simp
  have fl: "?loc \<le> n - 1" "\<forall>k. k < ?loc \<longrightarrow> \<not> ?x < ts ! k"
      "?loc < n - 1 \<longrightarrow> ?x < ts ! ?loc"
    using find_loc_upt [of 0 "n - 1" ?x ts] by simp_all
  have loc_n: "?loc < n" using fl(1) n1 by simp
  have loc_Sn: "?loc < Suc n" using loc_n by simp
  from insert_fold [OF loc_Sn len, of ?x "int i"] obtain a b ts' ns' where
    r: "fold insert_step [?loc..<Suc n] (?x, int i, ts, ns) = (a, b, ts', ns')"
    and l: "length ts' = length ts" "length ns' = length ns"
    and tk: "take (Suc n) ts' = ins_at ?loc ?x (take n ts)"
      "take (Suc n) ns' = ins_at ?loc (int i) (take n ns)"
    by auto
  have st: "dual_breakpoints_step d tau i (n, ts, ns) = (Suc n, ts', ns')"
    using bp_step_cross [OF True, of n ts ns] r by simp
  have lenB: "length ?B = n - 1" "length ?C = n - 1" using len by simp_all
  have t_n: "ts' ! n = tau"
  proof -
    have "ts' ! n = take (Suc n) ts' ! n" by simp
    also have "\<dots> = take n ts ! (n - 1)"
      unfolding tk using loc_n len by (simp add: ins_at_nth_after)
    also have "\<dots> = tau" using last n1 by simp
    finally show ?thesis .
  qed
  have n_n: "ns' ! n = - 1"
  proof -
    have "ns' ! n = take (Suc n) ns' ! n" by simp
    also have "\<dots> = take n ns ! (n - 1)"
      unfolding tk using loc_n len by (simp add: ins_at_nth_after)
    also have "\<dots> = - 1" using last n1 by simp
    finally show ?thesis .
  qed
  have Sn: "Suc (n - 1) = n" using n1 by simp
  have tB: "take n ts' = ins_at ?loc ?x ?B"
  proof -
    have "take n ts' = take n (take (Suc n) ts')" by simp
    also have "\<dots> = take (Suc (n - 1)) (ins_at ?loc ?x (take n ts))"
      unfolding tk Sn ..
    also have "\<dots> = ins_at ?loc ?x (take (n - 1) (take n ts))"
      using fl(1) by (rule take_ins_at)
    also have "take (n - 1) (take n ts) = ?B" by (simp add: min_def)
    finally show ?thesis .
  qed
  have tC: "take n ns' = ins_at ?loc (int i) ?C"
  proof -
    have "take n ns' = take n (take (Suc n) ns')" by simp
    also have "\<dots> = take (Suc (n - 1)) (ins_at ?loc (int i) (take n ns))"
      unfolding tk Sn ..
    also have "\<dots> = ins_at ?loc (int i) (take (n - 1) (take n ns))"
      using fl(1) by (rule take_ins_at)
    also have "take (n - 1) (take n ns) = ?C" by (simp add: min_def)
    finally show ?thesis .
  qed
  have s1: "sorted (ins_at ?loc ?x ?B)"
  proof (rule sorted_ins_at [OF srt])
    show "?loc \<le> length ?B" using fl(1) lenB by simp
    show "\<forall>j. j < ?loc \<longrightarrow> \<not> ?x < ?B ! j"
      using fl(1,2) by auto
    show "?loc < length ?B \<longrightarrow> ?x < ?B ! ?loc"
      using fl(3) lenB by auto
  qed
  have s2: "\<forall>y \<in> set (ins_at ?loc ?x ?B). y \<le> tau"
    using bnd crossing_le [OF True tau] by (simp add: set_ins_at)
  have s3: "mset (zip (ins_at ?loc ?x ?B) (ins_at ?loc (int i) ?C)) =
              mset (map (breakpoint d) (filter (crossing d tau) (js @ [i])))"
  proof -
    have "zip (ins_at ?loc ?x ?B) (ins_at ?loc (int i) ?C) = ins_at ?loc (?x, int i) (zip ?B ?C)"
      using lenB by (intro zip_ins_at) simp
    moreover have "(?x, int i) = breakpoint d i" by (simp add: breakpoint_def)
    ultimately show ?thesis using ms True by (simp add: mset_ins_at)
  qed
  have "bp_inv d tau (js @ [i]) (Suc n, ts', ns')"
  proof (rule bp_invI)
    show "Suc n = Suc (length (filter (crossing d tau) (js @ [i])))" using n True by simp
    show "ts' ! (Suc n - 1) = tau" using t_n by simp
    show "ns' ! (Suc n - 1) = - 1" using n_n by simp
    show "sorted (take (Suc n - 1) ts')" using s1 tB by simp
    show "\<forall>y \<in> set (take (Suc n - 1) ts'). y \<le> tau" using s2 tB by simp
    show "mset (zip (take (Suc n - 1) ts') (take (Suc n - 1) ns')) =
            mset (map (breakpoint d) (filter (crossing d tau) (js @ [i])))"
      using s3 tB tC by simp
  qed
  with st l show ?thesis by simp
qed

lemma bp_fold:
  assumes "0 \<le> tau"
    and "length (filter (crossing d tau) [0..<m]) < length ts0"
    and "length (filter (crossing d tau) [0..<m]) < length ns0"
  shows "\<exists>n ts ns. fold (dual_breakpoints_step d tau) [0..<m] (1, ts0[0 := tau], ns0[0 := - 1])
             = (n, ts, ns) \<and>
           bp_inv d tau [0..<m] (n, ts, ns) \<and> length ts = length ts0 \<and> length ns = length ns0"
  using assms(2,3)
proof (induction m)
  case 0
  have "bp_inv d tau [] (1, ts0[0 := tau], ns0[0 := - 1])"
    using 0 by (intro bp_invI) simp_all
  then show ?case by simp
next
  case (Suc m)
  have mono: "length (filter (crossing d tau) [0..<m])
                \<le> length (filter (crossing d tau) [0..<Suc m])"
    by simp
  from mono Suc.prems have "length (filter (crossing d tau) [0..<m]) < length ts0"
    "length (filter (crossing d tau) [0..<m]) < length ns0" by simp_all
  from Suc.IH [OF this] obtain n ts ns where
    r: "fold (dual_breakpoints_step d tau) [0..<m] (1, ts0[0 := tau], ns0[0 := - 1]) = (n, ts, ns)"
    and inv: "bp_inv d tau [0..<m] (n, ts, ns)"
    and l: "length ts = length ts0" "length ns = length ns0"
    by auto
  note n = bp_invD(1) [OF inv]
  have room: "Suc n \<le> length ts \<and> Suc n \<le> length ns" if "crossing d tau m"
    using that n Suc.prems l by simp
  from bp_step [OF inv assms(1) room, of m] obtain n' ts' ns' where
    st: "dual_breakpoints_step d tau m (n, ts, ns) = (n', ts', ns')"
    and inv': "bp_inv d tau ([0..<m] @ [m]) (n', ts', ns')"
    and l': "length ts' = length ts" "length ns' = length ns"
    by auto
  have "fold (dual_breakpoints_step d tau) [0..<Suc m] (1, ts0[0 := tau], ns0[0 := - 1])
          = (n', ts', ns')"
    using r st by simp
  with inv' l l' show ?case by simp
qed

text \<open>
  C7. For a step length \<open>tau\<close> that is not negative and buffers that hold the \<open>n_tau\<close>
  entries the function writes, \<open>casadi_qp_dual_breakpoints\<close> returns the number of rows
  with a breakpoint plus one; the first \<open>n_tau\<close> entries of \<open>tau_list\<close> are in ascending
  order; the last of them is the incoming \<open>tau\<close> with index -1; and the entries before
  it, paired with their indices, are exactly the breakpoints \<open>-lam[i]/dlam[i]\<close> of the
  rows with \<open>dlam[i] \<noteq> 0\<close>, \<open>lam[i] \<noteq> 0\<close> and a sign change of \<open>lam[i] + tau*dlam[i]\<close>,
  each once.
\<close>

theorem dual_breakpoints_sorted:
  assumes "0 \<le> tau"
    and "length (filter (crossing d tau) [0..<p_nz p]) < length tau_list"
    and "length (filter (crossing d tau) [0..<p_nz p]) < length ind_list"
  shows "\<exists>n ts ns. casadi_qp_dual_breakpoints p d tau_list ind_list e tau = (n, ts, ns) \<and>
           n = Suc (length (filter (crossing d tau) [0..<p_nz p])) \<and>
           sorted (take n ts) \<and> ts ! (n - 1) = tau \<and> ns ! (n - 1) = - 1 \<and>
           mset (zip (take (n - 1) ts) (take (n - 1) ns)) =
             mset (map (breakpoint d) (filter (crossing d tau) [0..<p_nz p]))"
proof -
  from bp_fold [OF assms] obtain n ts ns where
    r: "casadi_qp_dual_breakpoints p d tau_list ind_list e tau = (n, ts, ns)"
    and inv: "bp_inv d tau [0..<p_nz p] (n, ts, ns)"
    and l: "length ts = length tau_list"
    by (auto simp add: casadi_qp_dual_breakpoints_def)
  note n = bp_invD(1) [OF inv] and last = bp_invD(2,3) [OF inv]
    and srt = bp_invD(4) [OF inv] and bnd = bp_invD(5) [OF inv] and ms = bp_invD(6) [OF inv]
  from n assms(2) l have nl: "n - 1 < length ts" and n1: "Suc (n - 1) = n" by simp_all
  have "take n ts = take (n - 1) ts @ [ts ! (n - 1)]"
    using take_Suc_conv_app_nth [OF nl] n1 by simp
  with srt bnd last have "sorted (take n ts)" by (simp add: sorted_append)
  with r n last ms show ?thesis by blast
qed

lemmas eval_bp = casadi_qp_dual_breakpoints_def dual_breakpoints_step_def insert_step_def
  crossing_def prob_a2_def data_bp_def data_bp_back_def data_a2_def data0_def upt_conv_Cons Let_def

text \<open>
  The buffers have the sizes of the work vectors of the kernel: \<open>2 nz\<close> entries for
  \<open>tau_list\<close> and \<open>nz\<close> entries for \<open>ind_list\<close>.
\<close>

theorem dual_breakpoints_sorted_witness:
  "(0 :: real) \<le> 1 \<and>
   length (filter (crossing data_bp 1) [0..<p_nz prob_a2]) < length [0, 0, 0, 0, 0, 0 :: real] \<and>
   length (filter (crossing data_bp 1) [0..<p_nz prob_a2]) < length [0, 0, 0 :: int] \<and>
   casadi_qp_dual_breakpoints prob_a2 data_bp [0, 0, 0, 0, 0, 0] [0, 0, 0] 0 1 =
     (3, [1 / 4, 1 / 2, 1, 0, 0, 0], [2, 0, - 1]) \<and>
   (\<exists>n ts ns.
      casadi_qp_dual_breakpoints prob_a2 data_bp [0, 0, 0, 0, 0, 0] [0, 0, 0] 0 1 = (n, ts, ns) \<and>
      n = Suc (length (filter (crossing data_bp 1) [0..<p_nz prob_a2])) \<and>
      sorted (take n ts) \<and> ts ! (n - 1) = 1 \<and> ns ! (n - 1) = - 1 \<and>
      mset (zip (take (n - 1) ts) (take (n - 1) ns)) =
        mset (map (breakpoint data_bp) (filter (crossing data_bp 1) [0..<p_nz prob_a2])))"
proof -
  have t: "(0 :: real) \<le> 1" by simp
  have l1: "length (filter (crossing data_bp 1) [0..<p_nz prob_a2])
              < length [0, 0, 0, 0, 0, 0 :: real]"
    by (simp add: eval_bp)
  have l2: "length (filter (crossing data_bp 1) [0..<p_nz prob_a2]) < length [0, 0, 0 :: int]"
    by (simp add: eval_bp)
  have r: "casadi_qp_dual_breakpoints prob_a2 data_bp [0, 0, 0, 0, 0, 0] [0, 0, 0] 0 1 =
     (3, [1 / 4, 1 / 2, 1, 0, 0, 0], [2, 0, - 1])"
    by (simp add: eval_bp)
  from dual_breakpoints_sorted [OF t l1 l2, of 0] t l1 l2 r show ?thesis by blast
qed

text \<open>
  With a negative step length the breakpoints lie between \<open>tau\<close> and 0, and \<open>tau\<close>
  still takes the last place: at \<open>lam = (2, 1, -1)\<close>, \<open>dlam = (4, 0, -2)\<close> and
  \<open>tau = -1\<close> the list is \<open>-1/2, -1/2, -1\<close>, which is not ascending.
\<close>

theorem dual_breakpoints_sorted_counterexample:
  "casadi_qp_dual_breakpoints prob_a2 data_bp_back [0, 0, 0, 0, 0, 0] [0, 0, 0] 0 (- 1) =
     (3, [- 1 / 2, - 1 / 2, - 1, 0, 0, 0], [0, 2, - 1]) \<and>
   \<not> sorted (take 3 [- 1 / 2, - 1 / 2, - 1, 0, 0, 0 :: real])"
  by (simp add: eval_bp)

section \<open>Recomputing the dependent quantities\<close>

subsection \<open>The multiplier loop\<close>

lemma calc_row_eq:
  "i < length l \<Longrightarrow>
   calc_dependent_row p i (l, f) =
     (l[i := new_lam (p_dmin p) (l ! i) (f ! i)], f[i := f ! i + new_lam (p_dmin p) (l ! i) (f ! i)])"
proof -
  assume i: "i < length l"
  have z: "l ! i = 0 \<Longrightarrow> l[i := 0] = l" using list_update_id [of l i] by simp
  show ?thesis
    using i z by (auto simp add: calc_dependent_row_def new_lam_def Let_def)
qed

lemma calc_rows_fold:
  assumes "n \<le> length l" and "n \<le> length f"
  shows "\<exists>l' f'. fold (calc_dependent_row p) [0..<n] (l, f) = (l', f') \<and>
           length l' = length l \<and> length f' = length f \<and>
           (\<forall>i. i < n \<longrightarrow> l' ! i = new_lam (p_dmin p) (l ! i) (f ! i) \<and>
                          f' ! i = f ! i + new_lam (p_dmin p) (l ! i) (f ! i)) \<and>
           (\<forall>i. n \<le> i \<longrightarrow> l' ! i = l ! i \<and> f' ! i = f ! i)"
  using assms
proof (induction n)
  case 0
  then show ?case by simp
next
  case (Suc n)
  then have "n \<le> length l" "n \<le> length f" by simp_all
  from Suc.IH [OF this] obtain l' f' where
    r: "fold (calc_dependent_row p) [0..<n] (l, f) = (l', f')"
    and len: "length l' = length l" "length f' = length f"
    and lo: "\<forall>i. i < n \<longrightarrow> l' ! i = new_lam (p_dmin p) (l ! i) (f ! i) \<and>
                          f' ! i = f ! i + new_lam (p_dmin p) (l ! i) (f ! i)"
    and hi: "\<forall>i. n \<le> i \<longrightarrow> l' ! i = l ! i \<and> f' ! i = f ! i"
    by blast
  let ?v = "new_lam (p_dmin p) (l ! n) (f ! n)"
  let ?l2 = "l'[n := ?v]" and ?f2 = "f'[n := f ! n + ?v]"
  have nl: "n < length l'" "n < length f'" using Suc.prems len by simp_all
  have ln: "l' ! n = l ! n" "f' ! n = f ! n" using hi by simp_all
  have st: "fold (calc_dependent_row p) [0..<Suc n] (l, f) = (?l2, ?f2)"
    using r ln by (simp add: calc_row_eq [OF nl(1)])
  show ?case
  proof (intro exI conjI)
    show "fold (calc_dependent_row p) [0..<Suc n] (l, f) = (?l2, ?f2)" by (rule st)
    show "length ?l2 = length l" using len by simp
    show "length ?f2 = length f" using len by simp
    show "\<forall>i. i < Suc n \<longrightarrow> ?l2 ! i = new_lam (p_dmin p) (l ! i) (f ! i) \<and>
                          ?f2 ! i = f ! i + new_lam (p_dmin p) (l ! i) (f ! i)"
      using lo nl by (auto simp add: less_Suc_eq nth_list_update)
    show "\<forall>i. Suc n \<le> i \<longrightarrow> ?l2 ! i = l ! i \<and> ?f2 ! i = f ! i"
      using hi by (auto simp add: nth_list_update)
  qed
qed

lemma new_lam_idem: "0 \<le> dm \<Longrightarrow> new_lam dm (new_lam dm l f) f = new_lam dm l f"
  by (auto simp add: new_lam_def max_def min_def)

lemma calc_rows_idem:
  assumes "0 \<le> p_dmin p" and "n \<le> length l" and "n \<le> length f"
    and "fold (calc_dependent_row p) [0..<n] (l, f) = (l', f')"
  shows "fold (calc_dependent_row p) [0..<n] (l', f) = (l', f')"
proof -
  from calc_rows_fold [OF assms(2,3), of p] assms(4) have
    len: "length l' = length l" "length f' = length f"
    and lo: "\<forall>i. i < n \<longrightarrow> l' ! i = new_lam (p_dmin p) (l ! i) (f ! i) \<and>
                          f' ! i = f ! i + new_lam (p_dmin p) (l ! i) (f ! i)"
    and hi: "\<forall>i. n \<le> i \<longrightarrow> l' ! i = l ! i \<and> f' ! i = f ! i"
    by auto
  have n': "n \<le> length l'" using assms(2) len by simp
  from calc_rows_fold [OF n' assms(3), of p] obtain l2 f2 where
    r: "fold (calc_dependent_row p) [0..<n] (l', f) = (l2, f2)"
    and len2: "length l2 = length l'" "length f2 = length f"
    and lo2: "\<forall>i. i < n \<longrightarrow> l2 ! i = new_lam (p_dmin p) (l' ! i) (f ! i) \<and>
                          f2 ! i = f ! i + new_lam (p_dmin p) (l' ! i) (f ! i)"
    and hi2: "\<forall>i. n \<le> i \<longrightarrow> l2 ! i = l' ! i \<and> f2 ! i = f ! i"
    by blast
  have a: "l2 = l'"
  proof (rule nth_equalityI)
    show "length l2 = length l'" by (rule len2(1))
    fix i assume "i < length l2"
    show "l2 ! i = l' ! i"
    proof (cases "i < n")
      case True
      with lo lo2 new_lam_idem [OF assms(1)] show ?thesis by simp
    next
      case False
      with hi2 show ?thesis by simp
    qed
  qed
  have b: "f2 = f'"
  proof (rule nth_equalityI)
    show "length f2 = length f'" using len2 len by simp
    fix i assume "i < length f2"
    show "f2 ! i = f' ! i"
    proof (cases "i < n")
      case True
      with lo lo2 new_lam_idem [OF assms(1)] show ?thesis by simp
    next
      case False
      with hi hi2 show ?thesis by simp
    qed
  qed
  from r a b show ?thesis by simp
qed


subsection \<open>What the products read and write\<close>

lemma fold_keeps:
  "(\<And>x v. x \<in> set xs \<Longrightarrow> length (f x v) = length v \<and> f x v ! k = v ! k) \<Longrightarrow>
   length (fold f xs v) = length (v :: 'a list) \<and> fold f xs v ! k = v ! k"
  by (induction xs arbitrary: v) simp_all

lemma rows_belowD:
  "rows_below sp m \<Longrightarrow> i < sp ! 1 \<Longrightarrow> colind sp i \<le> el \<Longrightarrow> el < colind sp (i + 1) \<Longrightarrow>
   rowind sp (sp ! 1) el < m"
  by (simp add: rows_below_def)

lemma mv_entry_keeps:
  "length (mv_entry x sp y yoff zoff tr i el v) = length v"
  "tr \<Longrightarrow> k \<noteq> zoff + i \<Longrightarrow> mv_entry x sp y yoff zoff tr i el v ! k = v ! k"
  "\<not> tr \<Longrightarrow> k \<noteq> zoff + rowind sp (sp ! 1) el \<Longrightarrow>
     mv_entry x sp y yoff zoff tr i el v ! k = v ! k"
  by (simp_all add: mv_entry_def Let_def)

lemma fold_length:
  "(\<And>x v. x \<in> set xs \<Longrightarrow> length (f x v) = length v) \<Longrightarrow>
   length (fold f xs v) = length (v :: 'a list)"
  by (induction xs arbitrary: v) simp_all

lemma casadi_mv_length: "length (casadi_mv x sp y yoff z zoff tr) = length z"
  unfolding casadi_mv_def
  by (rule fold_length, rule fold_length) (simp add: mv_entry_keeps(1))

text \<open>Without transposition the product writes the rows of the pattern only.\<close>

lemma casadi_mv_outside:
  assumes "rows_below sp m" and "k < zoff \<or> zoff + m \<le> k"
  shows "casadi_mv x sp y yoff z zoff False ! k = z ! k"
  unfolding casadi_mv_def
proof (rule conjunct2 [OF fold_keeps], rule fold_keeps)
  fix i el v
  assume i: "i \<in> set [0..<sp ! 1]" and el: "el \<in> set [colind sp i..<colind sp (i + 1)]"
  then have "rowind sp (sp ! 1) el < m" using rows_belowD [OF assms(1), of i el] by simp
  with assms(2) have "k \<noteq> zoff + rowind sp (sp ! 1) el" by auto
  then show "length (mv_entry x sp y yoff zoff False i el v) = length v \<and>
             mv_entry x sp y yoff zoff False i el v ! k = v ! k"
    by (simp add: mv_entry_keeps)
qed

text \<open>With transposition it writes one entry per column.\<close>

lemma casadi_mv_outside_tr:
  assumes "k < zoff \<or> zoff + sp ! 1 \<le> k"
  shows "casadi_mv x sp y yoff z zoff True ! k = z ! k"
  unfolding casadi_mv_def
proof (rule conjunct2 [OF fold_keeps], rule fold_keeps)
  fix i el v
  assume i: "i \<in> set [0..<sp ! 1]"
  with assms have "k \<noteq> zoff + i" by auto
  then show "length (mv_entry x sp y yoff zoff True i el v) = length v \<and>
             mv_entry x sp y yoff zoff True i el v ! k = v ! k"
    by (simp add: mv_entry_keeps)
qed

text \<open>The product reads the vector at the columns, or with transposition at the rows.\<close>

lemma casadi_mv_cong:
  assumes "\<forall>i. i < sp ! 1 \<longrightarrow> y ! (yoff + i) = y' ! (yoff + i)"
  shows "casadi_mv x sp y yoff z zoff False = casadi_mv x sp y' yoff z zoff False"
  unfolding casadi_mv_def
proof (rule fold_cong [OF refl refl])
  fix i assume i: "i \<in> set [0..<sp ! 1]"
  show "fold (mv_entry x sp y yoff zoff False i) [colind sp i..<colind sp (i + 1)] =
        fold (mv_entry x sp y' yoff zoff False i) [colind sp i..<colind sp (i + 1)]"
  proof (rule ext, rule fold_cong [OF refl refl])
    fix el
    show "mv_entry x sp y yoff zoff False i el = mv_entry x sp y' yoff zoff False i el"
      using assms i by (simp add: mv_entry_def fun_eq_iff)
  qed
qed

lemma casadi_mv_cong_tr:
  assumes "rows_below sp m" and "\<forall>r. r < m \<longrightarrow> y ! (yoff + r) = y' ! (yoff + r)"
  shows "casadi_mv x sp y yoff z zoff True = casadi_mv x sp y' yoff z zoff True"
  unfolding casadi_mv_def
proof (rule fold_cong [OF refl refl])
  fix i assume i: "i \<in> set [0..<sp ! 1]"
  show "fold (mv_entry x sp y yoff zoff True i) [colind sp i..<colind sp (i + 1)] =
        fold (mv_entry x sp y' yoff zoff True i) [colind sp i..<colind sp (i + 1)]"
  proof (rule ext, rule fold_cong [OF refl refl])
    fix el assume el: "el \<in> set [colind sp i..<colind sp (i + 1)]"
    from i el have "rowind sp (sp ! 1) el < m" using rows_belowD [OF assms(1), of i el] by simp
    with assms(2) show "mv_entry x sp y yoff zoff True i el = mv_entry x sp y' yoff zoff True i el"
      by (simp add: mv_entry_def fun_eq_iff Let_def)
  qed
qed

lemma casadi_bilin_cong:
  assumes "rows_below sp m" and "\<forall>r. r < m \<longrightarrow> x ! r = x' ! r"
    and "\<forall>c. c < sp ! 1 \<longrightarrow> y ! c = y' ! c"
  shows "casadi_bilin a sp x y = casadi_bilin a sp x' y'"
  unfolding casadi_bilin_def
proof (rule fold_cong [OF refl refl])
  fix cc assume c: "cc \<in> set [0..<sp ! 1]"
  show "fold (bilin_entry a sp x y cc) [colind sp cc..<colind sp (cc + 1)] =
        fold (bilin_entry a sp x' y' cc) [colind sp cc..<colind sp (cc + 1)]"
  proof (rule ext, rule fold_cong [OF refl refl])
    fix el assume el: "el \<in> set [colind sp cc..<colind sp (cc + 1)]"
    from c el have "rowind sp (sp ! 1) el < m" using rows_belowD [OF assms(1), of cc el] by simp
    with assms(2,3) c show "bilin_entry a sp x y cc el = bilin_entry a sp x' y' cc el"
      by (simp add: bilin_entry_def fun_eq_iff)
  qed
qed

lemma casadi_dot_cong:
  assumes "\<forall>i. i < n \<longrightarrow> x ! i = x' ! i"
  shows "casadi_dot n x y = casadi_dot n x' y"
  unfolding casadi_dot_def
  by (rule fold_cong [OF refl refl]) (use assms in simp)

lemma casadi_copy_length: "length (casadi_copy x n y) = length y"
  unfolding casadi_copy_def by (rule fold_length) simp

lemma casadi_copy_nth:
  "k < length y \<Longrightarrow> casadi_copy x n y ! k = (if k < n then x ! k else y ! k)"
  unfolding casadi_copy_def
proof (induction n)
  case 0
  show ?case by simp
next
  case (Suc n)
  let ?v = "fold (\<lambda>i v. v[i := x ! i]) [0..<n] y"
  have l: "length ?v = length y" by (rule fold_length) simp
  have "fold (\<lambda>i v. v[i := x ! i]) [0..<Suc n] y ! k = ?v[n := x ! n] ! k" by simp
  also have "\<dots> = (if n = k then x ! n else ?v ! k)"
  proof (cases "n = k")
    case True
    with Suc.prems l show ?thesis by simp
  next
    case False
    then show ?thesis by simp
  qed
  finally show ?case using Suc by auto
qed


subsection \<open>The two error routines\<close>

lemma pr_step_du:
  "pr_step i (d\<lparr>d_du := c, d_idu := e\<rparr>) =
     map_option (\<lambda>r. r\<lparr>d_du := c, d_idu := e\<rparr>) (pr_step i d)"
  by (simp add: pr_step_def split: option.splits)

lemma pr_fold_du:
  "fold (\<lambda>i r. Option.bind r (pr_step i)) js (map_option (\<lambda>r. r\<lparr>d_du := c, d_idu := e\<rparr>) r0) =
     map_option (\<lambda>r. r\<lparr>d_du := c, d_idu := e\<rparr>) (fold (\<lambda>i r. Option.bind r (pr_step i)) js r0)"
proof (induction js arbitrary: r0)
  case Nil
  show ?case by simp
next
  case (Cons j js)
  have "Option.bind (map_option (\<lambda>r. r\<lparr>d_du := c, d_idu := e\<rparr>) r0) (pr_step j) =
          map_option (\<lambda>r. r\<lparr>d_du := c, d_idu := e\<rparr>) (Option.bind r0 (pr_step j))"
    by (cases r0) (simp_all add: pr_step_du)
  with Cons.IH [of "Option.bind r0 (pr_step j)"] show ?case by simp
qed

lemma casadi_qp_pr_du:
  "casadi_qp_pr p (d\<lparr>d_du := c, d_idu := e\<rparr>) =
     map_option (\<lambda>r. r\<lparr>d_du := c, d_idu := e\<rparr>) (casadi_qp_pr p d)"
proof -
  have sw: "d\<lparr>d_du := c, d_idu := e, d_pr := 0, d_ipr := - 1\<rparr> =
            (d\<lparr>d_pr := 0, d_ipr := - 1\<rparr>)\<lparr>d_du := c, d_idu := e\<rparr>"
    by (cases d) simp
  show ?thesis
    using pr_fold_du [where c = c and e = e and js = "[0..<p_nz p]"
        and ?r0.0 = "Some (d\<lparr>d_pr := 0, d_ipr := - 1\<rparr>)"]
    unfolding casadi_qp_pr_def sw by simp
qed

lemma pr_step_keeps:
  "pr_step i d = Some d' \<Longrightarrow> d'\<lparr>d_pr := x, d_ipr := y\<rparr> = d\<lparr>d_pr := x, d_ipr := y\<rparr>"
  by (auto simp add: pr_step_def split: if_splits option.splits)

lemma pr_fold_keeps:
  "fold (\<lambda>i r. Option.bind r (pr_step i)) js (Some d) = Some d' \<Longrightarrow>
   d'\<lparr>d_pr := x, d_ipr := y\<rparr> = d\<lparr>d_pr := x, d_ipr := y\<rparr>"
proof (induction js arbitrary: d)
  case Nil
  then show ?case by simp
next
  case (Cons j js)
  show ?case
  proof (cases "pr_step j d")
    case None
    have "fold (\<lambda>i r. Option.bind r (pr_step i)) js None = None"
      by (induction js) simp_all
    with Cons.prems None show ?thesis by simp
  next
    case (Some d1)
    with Cons.prems have "fold (\<lambda>i r. Option.bind r (pr_step i)) js (Some d1) = Some d'" by simp
    from Cons.IH [OF this] pr_step_keeps [OF Some, where x = x and y = y] show ?thesis by simp
  qed
qed

lemma casadi_qp_pr_idem:
  assumes "casadi_qp_pr p d = Some d'"
  shows "casadi_qp_pr p d' = Some d'"
proof -
  from assms have f: "fold (\<lambda>i r. Option.bind r (pr_step i)) [0..<p_nz p]
                        (Some (d\<lparr>d_pr := 0, d_ipr := - 1\<rparr>)) = Some d'"
    by (simp add: casadi_qp_pr_def)
  from pr_fold_keeps [OF f, where x = 0 and y = "- 1"] have "d'\<lparr>d_pr := 0, d_ipr := - 1\<rparr> = d\<lparr>d_pr := 0, d_ipr := - 1\<rparr>"
    by simp
  with f show ?thesis by (simp add: casadi_qp_pr_def)
qed

lemma du_step_keeps: "(du_step i d)\<lparr>d_du := x, d_idu := y\<rparr> = d\<lparr>d_du := x, d_idu := y\<rparr>"
  by (simp add: du_step_def)

lemma du_fold_keeps: "(fold du_step js d)\<lparr>d_du := x, d_idu := y\<rparr> = d\<lparr>d_du := x, d_idu := y\<rparr>"
  by (induction js arbitrary: d) (simp_all add: du_step_keeps)

lemma casadi_qp_du_keeps:
  "(casadi_qp_du p d)\<lparr>d_du := x, d_idu := y\<rparr> = d\<lparr>d_du := x, d_idu := y\<rparr>"
  using du_fold_keeps [where js = "[0..<p_nx p]" and d = "d\<lparr>d_du := 0, d_idu := - 1\<rparr>"
      and x = x and y = y]
  by (simp add: casadi_qp_du_def)

lemma casadi_qp_du_idem: "casadi_qp_du p (casadi_qp_du p d) = casadi_qp_du p d"
proof -
  have "casadi_qp_du p (casadi_qp_du p d) =
          fold du_step [0..<p_nx p] ((casadi_qp_du p d)\<lparr>d_du := 0, d_idu := - 1\<rparr>)"
    by (simp add: casadi_qp_du_def)
  also have "\<dots> = fold du_step [0..<p_nx p] (d\<lparr>d_du := 0, d_idu := - 1\<rparr>)"
    by (simp only: casadi_qp_du_keeps)
  finally show ?thesis by (simp add: casadi_qp_du_def)
qed

lemma errors_idem:
  assumes "casadi_qp_pr p d = Some prd"
  shows "map_option (casadi_qp_du p) (casadi_qp_pr p (casadi_qp_du p prd))
           = Some (casadi_qp_du p prd)"
proof -
  let ?d1 = "casadi_qp_du p prd"
  have d1: "?d1 = prd\<lparr>d_du := d_du ?d1, d_idu := d_idu ?d1\<rparr>"
    using casadi_qp_du_keeps [where p = p and d = prd and x = "d_du ?d1" and y = "d_idu ?d1"]
    by simp
  have "casadi_qp_pr p ?d1 = casadi_qp_pr p (prd\<lparr>d_du := d_du ?d1, d_idu := d_idu ?d1\<rparr>)"
    using d1 by simp
  also have "\<dots> = Some (prd\<lparr>d_du := d_du ?d1, d_idu := d_idu ?d1\<rparr>)"
    by (simp add: casadi_qp_pr_du casadi_qp_pr_idem [OF assms])
  also have "\<dots> = Some ?d1" using d1 by simp
  finally show ?thesis by (simp add: casadi_qp_du_idem)
qed


lemma casadi_qp_pr_keeps:
  assumes "casadi_qp_pr p d = Some d'"
  shows "d'\<lparr>d_pr := x, d_ipr := y\<rparr> = d\<lparr>d_pr := x, d_ipr := y\<rparr>"
proof -
  from assms have f: "fold (\<lambda>i r. Option.bind r (pr_step i)) [0..<p_nz p]
                        (Some (d\<lparr>d_pr := 0, d_ipr := - 1\<rparr>)) = Some d'"
    by (simp add: casadi_qp_pr_def)
  from pr_fold_keeps [OF f, where x = x and y = y] show ?thesis by simp
qed

lemma pr_step_total:
  assumes "d_ubz d ! i \<noteq> MInf" and "d_lbz d ! i \<noteq> PInf"
  shows "\<exists>d'. pr_step i d = Some d' \<and> d_ubz d' = d_ubz d \<and> d_lbz d' = d_lbz d"
  using assms
  by (cases "d_ubz d ! i"; cases "d_lbz d ! i") (simp_all add: pr_step_def)

lemma pr_fold_total:
  assumes "\<forall>i \<in> set js. d_ubz d ! i \<noteq> MInf \<and> d_lbz d ! i \<noteq> PInf"
  shows "\<exists>d'. fold (\<lambda>i r. Option.bind r (pr_step i)) js (Some d) = Some d'"
  using assms
proof (induction js arbitrary: d)
  case Nil
  show ?case by simp
next
  case (Cons j js)
  then have "d_ubz d ! j \<noteq> MInf" "d_lbz d ! j \<noteq> PInf" by simp_all
  from pr_step_total [OF this] obtain d1 where
    s: "pr_step j d = Some d1" and b: "d_ubz d1 = d_ubz d" "d_lbz d1 = d_lbz d"
    by blast
  have "\<forall>i \<in> set js. d_ubz d1 ! i \<noteq> MInf \<and> d_lbz d1 ! i \<noteq> PInf"
    using Cons.prems b by simp
  from Cons.IH [OF this] s show ?case by simp
qed

lemma casadi_qp_pr_total:
  assumes "\<forall>i \<in> set [0..<p_nz p]. d_ubz d ! i \<noteq> MInf \<and> d_lbz d ! i \<noteq> PInf"
  shows "\<exists>d'. casadi_qp_pr p d = Some d'"
  unfolding casadi_qp_pr_def
  by (rule pr_fold_total) (use assms in simp)

subsection \<open>The update of f, z, lam and infeas\<close>

lemma calc_update_errors:
  "calc_dependent_update p (d\<lparr>d_pr := a, d_ipr := b, d_du := c, d_idu := e\<rparr>) =
     (calc_dependent_update p d)\<lparr>d_pr := a, d_ipr := b, d_du := c, d_idu := e\<rparr>"
  by (simp add: calc_dependent_update_def Let_def split: prod.splits)

lemma calc_update_bounds:
  "d_ubz (calc_dependent_update p d) = d_ubz d \<and> d_lbz (calc_dependent_update p d) = d_lbz d"
  by (simp add: calc_dependent_update_def Let_def split: prod.splits)

lemma calc_update_idem:
  assumes wf: "wf_calc p d" and dm: "0 \<le> p_dmin p"
  shows "calc_dependent_update p (calc_dependent_update p d) = calc_dependent_update p d"
proof -
  let ?nx = "p_nx p" and ?na = "p_na p"
  from wf have ca: "p_sp_a p ! 1 \<le> ?nx" and ch: "p_sp_h p ! 1 \<le> ?nx"
    and ra: "rows_below (p_sp_a p) ?na" and rh: "rows_below (p_sp_h p) ?nx"
    and lz: "?nx \<le> length (d_z d)" and ll: "?nx \<le> length (d_lam d)"
    and li: "?nx \<le> length (d_infeas d)"
    by (simp_all add: wf_calc_def)
  define f1 where "f1 = casadi_bilin (d_nz_h d) (p_sp_h p) (d_z d) (d_z d) / 2
                        + casadi_dot ?nx (d_z d) (d_g d)"
  define z0 where "z0 = casadi_fill (d_z d) ?nx ?na 0"
  define z1 where "z1 = casadi_mv (d_nz_a d) (p_sp_a p) z0 0 z0 ?nx False"
  define i0 where "i0 = casadi_copy (d_g d) ?nx (d_infeas d)"
  define i1 where "i1 = casadi_mv (d_nz_h d) (p_sp_h p) z1 0 i0 0 False"
  define i2 where "i2 = casadi_mv (d_nz_a d) (p_sp_a p) (d_lam d) ?nx i1 0 True"
  obtain lam1 i3 where rows: "fold (calc_dependent_row p) [0..<?nx] (d_lam d, i2) = (lam1, i3)"
    by (cases "fold (calc_dependent_row p) [0..<?nx] (d_lam d, i2)") auto
  have U: "calc_dependent_update p d = d\<lparr>d_f := f1, d_z := z1, d_lam := lam1, d_infeas := i3\<rparr>"
    using rows
    by (simp add: calc_dependent_update_def Let_def f1_def z0_def z1_def i0_def i1_def i2_def)
  have len_z0: "length z0 = length (d_z d)" by (simp add: z0_def casadi_fill_length)
  have len_z1: "length z1 = length (d_z d)" by (simp add: z1_def casadi_mv_length len_z0)
  have len_i0: "length i0 = length (d_infeas d)" by (simp add: i0_def casadi_copy_length)
  have len_i1: "length i1 = length (d_infeas d)" by (simp add: i1_def casadi_mv_length len_i0)
  have len_i2: "length i2 = length (d_infeas d)" by (simp add: i2_def casadi_mv_length len_i1)
  have li2: "?nx \<le> length i2" using li len_i2 by simp
  from calc_rows_fold [OF ll li2, of p] rows have
    len_l1: "length lam1 = length (d_lam d)" and len_i3: "length i3 = length i2"
    and hi: "\<forall>i. ?nx \<le> i \<longrightarrow> lam1 ! i = d_lam d ! i \<and> i3 ! i = i2 ! i"
    by auto
  have z1_out: "z1 ! k = z0 ! k" if "k < ?nx \<or> ?nx + ?na \<le> k" for k
    unfolding z1_def using ra that by (rule casadi_mv_outside)
  have z0_nth: "z0 ! k = (if ?nx \<le> k \<and> k < ?nx + ?na then 0 else d_z d ! k)"
    if "k < length (d_z d)" for k
    unfolding z0_def using that by (rule casadi_fill_nth)
  have z1_low: "z1 ! k = d_z d ! k" if "k < ?nx" for k
    using that z1_out [of k] z0_nth [of k] lz by simp
  have e1: "casadi_bilin (d_nz_h d) (p_sp_h p) z1 z1 =
            casadi_bilin (d_nz_h d) (p_sp_h p) (d_z d) (d_z d)"
    using rh by (rule casadi_bilin_cong) (use z1_low ch in auto)
  have e2: "casadi_dot ?nx z1 (d_g d) = casadi_dot ?nx (d_z d) (d_g d)"
    by (rule casadi_dot_cong) (use z1_low in auto)
  have e3: "casadi_fill z1 ?nx ?na 0 = z0"
  proof (rule nth_equalityI)
    show "length (casadi_fill z1 ?nx ?na 0) = length z0"
      by (simp add: casadi_fill_length len_z0 len_z1)
    fix k assume "k < length (casadi_fill z1 ?nx ?na 0)"
    then have k: "k < length (d_z d)" by (simp add: casadi_fill_length len_z1)
    then have k1: "k < length z1" by (simp add: len_z1)
    show "casadi_fill z1 ?nx ?na 0 ! k = z0 ! k"
    proof (cases "?nx \<le> k \<and> k < ?nx + ?na")
      case True
      then show ?thesis using casadi_fill_nth [OF k1] z0_nth [OF k] by simp
    next
      case False
      then have "k < ?nx \<or> ?nx + ?na \<le> k" by auto
      have "casadi_fill z1 ?nx ?na 0 ! k = z1 ! k"
        using casadi_fill_nth [OF k1, of "?nx" "?na" 0] by (simp only: False if_False)
      with z1_out [OF \<open>k < ?nx \<or> ?nx + ?na \<le> k\<close>] show ?thesis by simp
    qed
  qed
  have e4: "casadi_copy (d_g d) ?nx i3 = i0"
  proof (rule nth_equalityI)
    show "length (casadi_copy (d_g d) ?nx i3) = length i0"
      by (simp add: casadi_copy_length len_i3 len_i2 len_i0)
    fix k assume "k < length (casadi_copy (d_g d) ?nx i3)"
    then have k: "k < length (d_infeas d)" by (simp add: casadi_copy_length len_i3 len_i2)
    then have k3: "k < length i3" by (simp add: len_i3 len_i2)
    show "casadi_copy (d_g d) ?nx i3 ! k = i0 ! k"
    proof (cases "k < ?nx")
      case True
      then show ?thesis
        using casadi_copy_nth [OF k3] casadi_copy_nth [OF k] by (simp add: i0_def)
    next
      case False
      then have ge: "?nx \<le> k" by simp
      have "i3 ! k = i2 ! k" using hi ge by simp
      also have "\<dots> = i1 ! k"
        unfolding i2_def using ge ca by (intro casadi_mv_outside_tr) simp
      also have "\<dots> = i0 ! k"
        unfolding i1_def using rh ge by (intro casadi_mv_outside) simp_all
      finally show ?thesis using False casadi_copy_nth [OF k3] by simp
    qed
  qed
  have e5: "casadi_mv (d_nz_a d) (p_sp_a p) lam1 ?nx i1 0 True = i2"
    unfolding i2_def using ra by (rule casadi_mv_cong_tr) (use hi in simp)
  have e6: "fold (calc_dependent_row p) [0..<?nx] (lam1, i2) = (lam1, i3)"
    using dm ll li2 rows by (rule calc_rows_idem)
  have "calc_dependent_update p (d\<lparr>d_f := f1, d_z := z1, d_lam := lam1, d_infeas := i3\<rparr>)
          = d\<lparr>d_f := f1, d_z := z1, d_lam := lam1, d_infeas := i3\<rparr>"
    by (simp add: calc_dependent_update_def Let_def e1 e2 e3 e4 e5 e6
          z1_def [symmetric] i1_def [symmetric] f1_def [symmetric])
  then show ?thesis by (simp only: U)
qed

text \<open>
  C9. \<open>casadi_qp_calc_dependent\<close> is idempotent: whenever a call returns, a second
  call in succession returns the state of the first, so it leaves \<open>f\<close>, \<open>z\<close>, \<open>lam\<close>,
  \<open>infeas\<close>, \<open>pr\<close>, \<open>ipr\<close>, \<open>du\<close> and \<open>idu\<close> (and every other field) as the first
  call set them; and the call returns when no upper bound is minus infinity and no
  lower bound is plus infinity. The patterns of A and H fit the dimensions, and the
  smallest multiplier magnitude \<open>dmin\<close>, positive in a well-formed problem, is not
  negative.
\<close>

theorem calc_dependent_idempotent:
  assumes wf: "wf_calc p d" and dm: "0 \<le> p_dmin p"
  shows "(bounds_proper p d \<longrightarrow> (\<exists>d1. casadi_qp_calc_dependent p d = Some d1)) \<and>
         (\<forall>d1. casadi_qp_calc_dependent p d = Some d1 \<longrightarrow>
                casadi_qp_calc_dependent p d1 = Some d1)"
proof (intro conjI impI allI)
  let ?u = "calc_dependent_update p d"
  assume bp: "bounds_proper p d"
  have "\<forall>i \<in> set [0..<p_nz p]. d_ubz ?u ! i \<noteq> MInf \<and> d_lbz ?u ! i \<noteq> PInf"
    using bp by (simp add: bounds_proper_def calc_update_bounds)
  from casadi_qp_pr_total [OF this] obtain prd where "casadi_qp_pr p ?u = Some prd"
    by blast
  then show "\<exists>d1. casadi_qp_calc_dependent p d = Some d1"
    by (simp add: casadi_qp_calc_dependent_def)
next
  let ?u = "calc_dependent_update p d"
  fix d1 assume first: "casadi_qp_calc_dependent p d = Some d1"
  then obtain prd where pr: "casadi_qp_pr p ?u = Some prd" and d1: "d1 = casadi_qp_du p prd"
    by (auto simp add: casadi_qp_calc_dependent_def)
  have a: "prd = ?u\<lparr>d_pr := d_pr prd, d_ipr := d_ipr prd\<rparr>"
    using casadi_qp_pr_keeps [OF pr, where x = "d_pr prd" and y = "d_ipr prd"] by simp
  have b: "d1 = prd\<lparr>d_du := d_du d1, d_idu := d_idu d1\<rparr>"
    using casadi_qp_du_keeps [where p = p and d = prd and x = "d_du d1" and y = "d_idu d1"]
    by (simp add: d1)
  have c: "d1 = ?u\<lparr>d_pr := d_pr prd, d_ipr := d_ipr prd, d_du := d_du d1, d_idu := d_idu d1\<rparr>"
    using a b by simp
  have "calc_dependent_update p d1 =
          (calc_dependent_update p ?u)\<lparr>d_pr := d_pr prd, d_ipr := d_ipr prd,
             d_du := d_du d1, d_idu := d_idu d1\<rparr>"
    by (subst c) (rule calc_update_errors)
  also have "\<dots> = ?u\<lparr>d_pr := d_pr prd, d_ipr := d_ipr prd,
             d_du := d_du d1, d_idu := d_idu d1\<rparr>"
    by (simp only: calc_update_idem [OF wf dm])
  also have "\<dots> = d1" using c by simp
  finally have u1: "calc_dependent_update p d1 = d1" .
  show "casadi_qp_calc_dependent p d1 = Some d1"
    using errors_idem [OF pr] u1 by (simp add: casadi_qp_calc_dependent_def d1)
qed

lemmas eval_calc = casadi_qp_calc_dependent_def calc_dependent_update_def calc_dependent_row_def
  casadi_qp_pr_def pr_step_def casadi_qp_du_def du_step_def casadi_bilin_def bilin_entry_def
  casadi_dot_def casadi_copy_def casadi_fill_def casadi_mv_def mv_entry_def colind_def rowind_def
  x_fin.simps prob_a2_def data_calc_def data_a2_def data0_def upt_conv_Cons Let_def

theorem calc_dependent_idempotent_witness:
  "wf_calc prob_a2 data_calc \<and> 0 \<le> p_dmin prob_a2 \<and> bounds_proper prob_a2 data_calc \<and>
   casadi_qp_calc_dependent prob_a2 data_calc =
     Some (data_calc\<lparr>d_f := 3 / 2, d_z := [3, 3, 3], d_lam := [1, 1, 1], d_infeas := [5],
       d_pr := 3, d_ipr := 1, d_du := 5, d_idu := 0\<rparr>) \<and>
   casadi_qp_calc_dependent prob_a2
     (data_calc\<lparr>d_f := 3 / 2, d_z := [3, 3, 3], d_lam := [1, 1, 1], d_infeas := [5],
       d_pr := 3, d_ipr := 1, d_du := 5, d_idu := 0\<rparr>) =
     Some (data_calc\<lparr>d_f := 3 / 2, d_z := [3, 3, 3], d_lam := [1, 1, 1], d_infeas := [5],
       d_pr := 3, d_ipr := 1, d_du := 5, d_idu := 0\<rparr>)"
proof -
  have wf: "wf_calc prob_a2 data_calc"
    by (simp add: wf_calc_def rows_below_def colind_def rowind_def prob_a2_def
          data_calc_def data_a2_def data0_def upt_conv_Cons)
  have dm: "0 \<le> p_dmin prob_a2" by (simp add: prob_a2_def)
  have bp: "bounds_proper prob_a2 data_calc"
    by (simp add: bounds_proper_def prob_a2_def data_calc_def data_a2_def data0_def
          upt_conv_Cons)
  have r: "casadi_qp_calc_dependent prob_a2 data_calc =
     Some (data_calc\<lparr>d_f := 3 / 2, d_z := [3, 3, 3], d_lam := [1, 1, 1], d_infeas := [5],
       d_pr := 3, d_ipr := 1, d_du := 5, d_idu := 0\<rparr>)"
    by (simp add: eval_calc)
  from calc_dependent_idempotent [OF wf dm] r have
    "casadi_qp_calc_dependent prob_a2
       (data_calc\<lparr>d_f := 3 / 2, d_z := [3, 3, 3], d_lam := [1, 1, 1], d_infeas := [5],
         d_pr := 3, d_ipr := 1, d_du := 5, d_idu := 0\<rparr>) =
     Some (data_calc\<lparr>d_f := 3 / 2, d_z := [3, 3, 3], d_lam := [1, 1, 1], d_infeas := [5],
       d_pr := 3, d_ipr := 1, d_du := 5, d_idu := 0\<rparr>)"
    by blast
  with wf dm bp r show ?thesis by simp
qed
section \<open>The sign discipline\<close>

subsection \<open>After the reset\<close>

lemma isinf_eq: "a = b \<Longrightarrow> isinf a = isinf b"
  by simp

lemma reset_row_ok:
  assumes dm: "0 < p_dmin p"
    and len: "i < length (d_lam d)" "i < length (d_neverzero d)"
      "i < length (d_neverupper d)" "i < length (d_neverlower d)"
    and r: "reset_row p i d = (False, d1)"
  shows "sign_row d1 i" and "flags_row d1 i" and "same_rooms d d1"
    and "\<forall>j. j \<noteq> i \<longrightarrow> same_signs d d1 j"
proof -
  let ?nz = "d_lbz d ! i = d_ubz d ! i"
  let ?nu = "isinf (d_ubz d ! i)"
  let ?nl = "isinf (d_lbz d ! i)"
  have eq: "?nz \<Longrightarrow> ?nu = ?nl" by simp
  from r have not3: "\<not> (?nz \<and> ?nu \<and> ?nl)"
    by (auto simp add: reset_row_def Let_def split: if_splits)
  with eq have free: "?nz \<Longrightarrow> \<not> ?nu \<and> \<not> ?nl" by blast
  from r dm len free show "sign_row d1 i"
    by (auto simp add: reset_row_def Let_def sign_row_def split: if_splits)
  from r len free show "flags_row d1 i"
    by (auto simp add: reset_row_def Let_def flags_row_def split: if_splits)
  from r show "same_rooms d d1"
    by (auto simp add: reset_row_def Let_def same_rooms_def split: if_splits)
  from r show "\<forall>j. j \<noteq> i \<longrightarrow> same_signs d d1 j"
    by (auto simp add: reset_row_def Let_def same_signs_def split: if_splits)
qed

lemma sign_row_same: "same_signs d d1 j \<Longrightarrow> sign_row d1 j = sign_row d j"
  by (simp add: same_signs_def sign_row_def)

lemma flags_row_same: "same_signs d d1 j \<Longrightarrow> flags_row d1 j = flags_row d j"
  by (simp add: same_signs_def flags_row_def)

lemma same_signs_trans: "same_signs d d1 j \<Longrightarrow> same_signs d1 d2 j \<Longrightarrow> same_signs d d2 j"
  by (simp add: same_signs_def)

lemma same_rooms_trans: "same_rooms d d1 \<Longrightarrow> same_rooms d1 d2 \<Longrightarrow> same_rooms d d2"
  by (simp add: same_rooms_def)

lemma same_signs_refl: "same_signs d d j"
  by (simp add: same_signs_def)

lemma same_rooms_refl: "same_rooms d d"
  by (simp add: same_rooms_def)

lemma reset_loop_ok:
  assumes dm: "0 < p_dmin p"
  shows "distinct js \<Longrightarrow>
         \<forall>i \<in> set js. i < length (d_lam d) \<and> i < length (d_neverzero d) \<and>
            i < length (d_neverupper d) \<and> i < length (d_neverlower d) \<Longrightarrow>
         reset_loop p js d = (False, d') \<Longrightarrow>
         (\<forall>i \<in> set js. sign_row d' i \<and> flags_row d' i) \<and> same_rooms d d' \<and>
         (\<forall>j. j \<notin> set js \<longrightarrow> same_signs d d' j)"
proof (induction js arbitrary: d)
  case Nil
  then show ?case by (simp add: same_rooms_refl same_signs_refl)
next
  case (Cons i js)
  obtain b d1 where row: "reset_row p i d = (b, d1)" by (cases "reset_row p i d") auto
  with Cons.prems(3) have b: "b = False" and rest: "reset_loop p js d1 = (False, d')"
    by (auto split: if_splits bool.splits)
  from Cons.prems(2) have li: "i < length (d_lam d)" "i < length (d_neverzero d)"
      "i < length (d_neverupper d)" "i < length (d_neverlower d)" by simp_all
  note ok = reset_row_ok [OF dm li row [unfolded b]]
  have len1: "\<forall>k \<in> set js. k < length (d_lam d1) \<and> k < length (d_neverzero d1) \<and>
            k < length (d_neverupper d1) \<and> k < length (d_neverlower d1)"
    using Cons.prems(2) ok(3) by (simp add: same_rooms_def)
  from Cons.prems(1) have dist: "distinct js" and ni: "i \<notin> set js" by simp_all
  from Cons.IH [OF dist len1 rest] have
    ih1: "\<forall>k \<in> set js. sign_row d' k \<and> flags_row d' k" and ih2: "same_rooms d1 d'"
    and ih3: "\<forall>j. j \<notin> set js \<longrightarrow> same_signs d1 d' j"
    by simp_all
  from ih3 ni have si: "same_signs d1 d' i" by simp
  have "sign_row d' i \<and> flags_row d' i"
    using ok(1,2) sign_row_same [OF si] flags_row_same [OF si] by simp
  moreover have "\<forall>j. j \<notin> set (i # js) \<longrightarrow> same_signs d d' j"
    using ok(4) ih3 same_signs_trans by auto
  ultimately show ?case using ih1 same_rooms_trans [OF ok(3) ih2] by simp
qed

text \<open>
  X1. After a \<open>casadi_qp_reset\<close> that returns 0, with \<open>dmin\<close> positive, every row
  below \<open>nz\<close> satisfies the sign discipline, and no row that is never zero is never
  upper or never lower.
\<close>

theorem reset_sign_discipline:
  assumes dm: "0 < p_dmin p" and rooms: "flags_rooms p d"
    and r: "casadi_qp_reset p d = (0, d')"
  shows "sign_discipline p d' \<and> list_all (flags_row d') [0..<p_nz p]"
proof -
  let ?d0 = "d\<lparr>d_msg := MsgNone, d_tau := 0, d_sing := 0\<rparr>"
  obtain b d1 where l: "reset_loop p [0..<p_nz p] ?d0 = (b, d1)"
    by (cases "reset_loop p [0..<p_nz p] ?d0") auto
  with r have b: "b = False"
    by (cases b) (auto simp add: casadi_qp_reset_def Let_def split: prod.splits)
  from r l b obtain a w where d': "d' = d1\<lparr>d_nz_at := a, d_iw := w\<rparr>"
    by (auto simp add: casadi_qp_reset_def Let_def split: prod.splits)
  have len: "\<forall>i \<in> set [0..<p_nz p]. i < length (d_lam ?d0) \<and> i < length (d_neverzero ?d0) \<and>
            i < length (d_neverupper ?d0) \<and> i < length (d_neverlower ?d0)"
    using rooms by (auto simp add: flags_rooms_def)
  from reset_loop_ok [OF dm _ len l [unfolded b]] have
    "\<forall>i \<in> set [0..<p_nz p]. sign_row d1 i \<and> flags_row d1 i" by simp
  then have "\<forall>i \<in> set [0..<p_nz p]. sign_row d' i \<and> flags_row d' i"
    by (simp add: d' sign_row_def flags_row_def)
  then show ?thesis by (simp add: sign_discipline_def list_all_iff)
qed

subsection \<open>Across a step\<close>

lemma take_row_eq:
  assumes "i < length iw" and "i < length lam"
  shows "take_step_row p d i (iw, lam) =
           (iw[i := new_sign (d_neverzero d ! i) (iw ! i) (lam ! i)],
            lam[i := clamp (p_dmin p) (new_sign (d_neverzero d ! i) (iw ! i) (lam ! i)) (lam ! i)])"
proof (cases "d_neverzero d ! i \<and> (if iw ! i < 0 then lam ! i > 0 else lam ! i < 0)")
  case True
  then have t: "(d_neverzero d ! i \<and> (if iw ! i < 0 then lam ! i > 0 else lam ! i < 0)) = True"
    by (rule eqTrueI)
  have ns: "new_sign (d_neverzero d ! i) (iw ! i) (lam ! i) = - iw ! i"
    by (simp only: new_sign_def t if_True)
  have c: "lam[i := clamp (p_dmin p) (- iw ! i) (lam ! i)] =
             (if - iw ! i = - 1 then lam[i := min (lam ! i) (- p_dmin p)]
              else if - iw ! i = 1 then lam[i := max (lam ! i) (p_dmin p)]
              else if - iw ! i = 0 then lam[i := 0] else lam)"
    by (simp add: clamp_def list_update_id)
  have "take_step_row p d i (iw, lam) =
          (iw[i := - iw ! i],
           if iw[i := - iw ! i] ! i = - 1 then lam[i := min (lam ! i) (- p_dmin p)]
           else if iw[i := - iw ! i] ! i = 1 then lam[i := max (lam ! i) (p_dmin p)]
           else if iw[i := - iw ! i] ! i = 0 then lam[i := 0] else lam)"
    by (simp only: take_step_row_def prod.case Let_def t if_True)
  then show ?thesis unfolding ns c using assms(1) by simp
next
  case False
  then have ns: "new_sign (d_neverzero d ! i) (iw ! i) (lam ! i) = iw ! i"
    by (simp only: new_sign_def if_False)
  have c: "lam[i := clamp (p_dmin p) (iw ! i) (lam ! i)] =
             (if iw ! i = - 1 then lam[i := min (lam ! i) (- p_dmin p)]
              else if iw ! i = 1 then lam[i := max (lam ! i) (p_dmin p)]
              else if iw ! i = 0 then lam[i := 0] else lam)"
    by (simp add: clamp_def list_update_id)
  have u: "iw[i := iw ! i] = iw" by (rule list_update_id)
  have "take_step_row p d i (iw, lam) =
          (iw, if iw ! i = - 1 then lam[i := min (lam ! i) (- p_dmin p)]
               else if iw ! i = 1 then lam[i := max (lam ! i) (p_dmin p)]
               else if iw ! i = 0 then lam[i := 0] else lam)"
    using False by (simp only: take_step_row_def prod.case Let_def if_False)
  then show ?thesis unfolding ns c u .
qed

lemma take_rows_fold:
  assumes "n \<le> length iw" and "n \<le> length lam"
  shows "\<exists>iw2 lam2. fold (take_step_row p d) [0..<n] (iw, lam) = (iw2, lam2) \<and>
           length iw2 = length iw \<and> length lam2 = length lam \<and>
           (\<forall>i. i < n \<longrightarrow>
              lam2 ! i = clamp (p_dmin p) (new_sign (d_neverzero d ! i) (iw ! i) (lam ! i)) (lam ! i)) \<and>
           (\<forall>i. n \<le> i \<longrightarrow> lam2 ! i = lam ! i \<and> iw2 ! i = iw ! i)"
  using assms
proof (induction n)
  case 0
  then show ?case by simp
next
  case (Suc n)
  then have "n \<le> length iw" "n \<le> length lam" by simp_all
  from Suc.IH [OF this] obtain iw2 lam2 where
    f: "fold (take_step_row p d) [0..<n] (iw, lam) = (iw2, lam2)"
    and l: "length iw2 = length iw" "length lam2 = length lam"
    and lo: "\<forall>i. i < n \<longrightarrow>
              lam2 ! i = clamp (p_dmin p) (new_sign (d_neverzero d ! i) (iw ! i) (lam ! i)) (lam ! i)"
    and hi: "\<forall>i. n \<le> i \<longrightarrow> lam2 ! i = lam ! i \<and> iw2 ! i = iw ! i"
    by blast
  have n1: "n < length iw2" "n < length lam2" using Suc.prems l by simp_all
  have st: "fold (take_step_row p d) [0..<Suc n] (iw, lam) =
              (iw2[n := new_sign (d_neverzero d ! n) (iw2 ! n) (lam2 ! n)],
               lam2[n := clamp (p_dmin p) (new_sign (d_neverzero d ! n) (iw2 ! n) (lam2 ! n)) (lam2 ! n)])"
    using f take_row_eq [OF n1, of p d] by simp
  have at: "iw2 ! n = iw ! n" "lam2 ! n = lam ! n" using hi by simp_all
  show ?case
    unfolding st using l lo hi n1 at
    by (auto simp add: nth_list_update less_Suc_eq)
qed

lemma take_signs_fold:
  assumes "n \<le> length iw"
  shows "length (fold (take_step_sign p d) [0..<n] iw) = length iw \<and>
         (\<forall>i. i < n \<longrightarrow> fold (take_step_sign p d) [0..<n] iw ! i = lam_sign (d_lam d ! i))"
  using assms
proof (induction n)
  case 0
  then show ?case by simp
next
  case (Suc n)
  define w where "w = fold (take_step_sign p d) [0..<n] iw"
  from Suc have ih: "length w = length iw" "\<forall>i. i < n \<longrightarrow> w ! i = lam_sign (d_lam d ! i)"
    by (simp_all add: w_def)
  have n1: "n < length w" using Suc.prems ih(1) by simp
  have st: "fold (take_step_sign p d) [0..<Suc n] iw = w[n := lam_sign (d_lam d ! n)]"
    by (simp add: w_def take_step_sign_def lam_sign_def)
  show ?case
    unfolding st using ih n1 by (auto simp add: nth_list_update less_Suc_eq)
qed

lemma clamp_row:
  assumes dm: "0 < dm"
    and nz: "nzero \<Longrightarrow> l0 \<noteq> 0 \<and> \<not> nupper \<and> \<not> nlower"
    and nu: "nupper \<Longrightarrow> l0 \<le> 0" and nl: "nlower \<Longrightarrow> 0 \<le> l0"
  shows "(if nzero then clamp dm (new_sign nzero (lam_sign l0) l) l \<noteq> 0 else True) \<and>
         (if nupper then clamp dm (new_sign nzero (lam_sign l0) l) l \<le> 0 else True) \<and>
         (if nlower then clamp dm (new_sign nzero (lam_sign l0) l) l \<ge> 0 else True)"
  using assms by (auto simp add: clamp_def new_sign_def lam_sign_def min_def max_def)

lemma casadi_axpy_length: "length (casadi_axpy n alpha x y) = length y"
  unfolding casadi_axpy_def by (rule fold_length) simp

text \<open>
  X2. \<open>casadi_qp_take_step\<close> keeps the sign discipline: from a state that satisfies it
  and whose flags fit together, with \<open>dmin\<close> positive, the state after the step
  satisfies it, whatever the step.
\<close>

theorem take_step_sign_discipline:
  assumes dm: "0 < p_dmin p" and rooms: "flags_rooms p d" and iw: "p_nz p \<le> length (d_iw d)"
    and sd: "sign_discipline p d" and fl: "list_all (flags_row d) [0..<p_nz p]"
  shows "sign_discipline p (casadi_qp_take_step p d) \<and>
         list_all (flags_row (casadi_qp_take_step p d)) [0..<p_nz p]"
proof -
  let ?n = "p_nz p"
  define iw0 where "iw0 = fold (take_step_sign p d) [0..<?n] (d_iw d)"
  define lam1 where "lam1 = casadi_axpy ?n (d_tau d) (d_dlam d) (d_lam d)"
  from take_signs_fold [OF iw, of p d] have
    l0: "length iw0 = length (d_iw d)" and s0: "\<forall>i. i < ?n \<longrightarrow> iw0 ! i = lam_sign (d_lam d ! i)"
    by (simp_all add: iw0_def)
  have l1: "length lam1 = length (d_lam d)" by (simp add: lam1_def casadi_axpy_length)
  from rooms have ll: "?n \<le> length (d_lam d)" by (simp add: flags_rooms_def)
  have a: "?n \<le> length iw0" using iw l0 by simp
  have b: "?n \<le> length lam1" using ll l1 by simp
  from take_rows_fold [OF a b, of p d] obtain iw2 lam2 where
    f: "fold (take_step_row p d) [0..<?n] (iw0, lam1) = (iw2, lam2)"
    and lo: "\<forall>i. i < ?n \<longrightarrow>
              lam2 ! i = clamp (p_dmin p) (new_sign (d_neverzero d ! i) (iw0 ! i) (lam1 ! i)) (lam1 ! i)"
    by blast
  have ts: "casadi_qp_take_step p d =
              d\<lparr>d_z := casadi_axpy ?n (d_tau d) (d_dz d) (d_z d), d_lam := lam2, d_iw := iw2\<rparr>"
    using f by (simp add: casadi_qp_take_step_def Let_def iw0_def lam1_def)
  have row: "sign_row (casadi_qp_take_step p d) i \<and> flags_row (casadi_qp_take_step p d) i"
    if i: "i < ?n" for i
  proof -
    from sd i have sr: "sign_row d i" by (simp add: sign_discipline_def list_all_iff)
    from fl i have fr: "flags_row d i" by (simp add: list_all_iff)
    have v: "lam2 ! i = clamp (p_dmin p)
               (new_sign (d_neverzero d ! i) (lam_sign (d_lam d ! i)) (lam1 ! i)) (lam1 ! i)"
      using lo s0 i by simp
    have "(if d_neverzero d ! i then lam2 ! i \<noteq> 0 else True) \<and>
          (if d_neverupper d ! i then lam2 ! i \<le> 0 else True) \<and>
          (if d_neverlower d ! i then lam2 ! i \<ge> 0 else True)"
      unfolding v
    proof (rule clamp_row [OF dm])
      show "d_lam d ! i \<noteq> 0 \<and> \<not> d_neverupper d ! i \<and> \<not> d_neverlower d ! i"
        if "d_neverzero d ! i"
        using that sr fr by (simp add: sign_row_def flags_row_def)
      show "d_lam d ! i \<le> 0" if "d_neverupper d ! i"
        using that sr by (simp add: sign_row_def)
      show "0 \<le> d_lam d ! i" if "d_neverlower d ! i"
        using that sr by (simp add: sign_row_def)
    qed
    then show ?thesis using fr by (simp add: ts sign_row_def flags_row_def)
  qed
  then show ?thesis by (simp add: sign_discipline_def list_all_iff)
qed

subsection \<open>Across a flip\<close>

lemmas eval_eq = prob1_def data1_def data0_def data_eq_reset_def data_eq_def data_eq_step_def
  data_eq_flip_def solve1_def upt_conv_Cons Let_def colind_def rowind_def
  casadi_fill_def casadi_copy_def casadi_axpy_def casadi_dot_def casadi_scal_def
  casadi_mv_def mv_entry_def casadi_bilin_def bilin_entry_def

lemma reset_data1: "casadi_qp_reset prob1 data1 = (0, data_eq_reset)"
  by (simp add: casadi_qp_reset_def reset_row_def casadi_trans_def x_le_def eval_eq)

lemma calc_data_eq_reset: "casadi_qp_calc_dependent prob1 data_eq_reset = Some data_eq"
  by (simp add: casadi_qp_calc_dependent_def calc_dependent_update_def calc_dependent_row_def
        casadi_qp_pr_def pr_step_def casadi_qp_du_def du_step_def eval_eq)

lemma step_data_eq:
  "casadi_qp_take_step prob1 (data_eq\<lparr>d_tau := 1, d_w := [1, 0], d_iw := [- 1]\<rparr>) = data_eq_step"
  by (simp add: casadi_qp_take_step_def take_step_sign_def take_step_row_def eval_eq)

lemma du_index_data_eq:
  "casadi_qp_du_index prob1 data_eq_step 0 = Some (0, 0, data_eq_step\<lparr>d_msg := MsgRemoved 0\<rparr>)"
  by (simp add: casadi_qp_du_index_def du_sens_def du_index_step_def casadi_qp_du_check_def eval_eq)

lemma flip_check_data_eq:
  "casadi_qp_flip_check prob1 solve1 (data_eq_step\<lparr>d_msg := MsgRemoved 0\<rparr>) 0 0 (- 1) 0 2
     = Some (0, - 1, 0, data_eq_step\<lparr>d_msg := MsgRemoved 0\<rparr>)"
  by (simp add: casadi_qp_flip_check_def flip_check_columns_def casadi_qp_kkt_vector_def
        kkt_sparse_a_h_def eval_eq)

lemma data_eq_step_fields:
  "d_tau data_eq_step = 1" "d_idu data_eq_step = 0" "d_ipr data_eq_step = - 1"
  "d_pr data_eq_step = 0" "d_du data_eq_step = 2" "d_sing data_eq_step = 0"
  "p_du_to_pr prob1 = 1"
  by (simp_all add: eval_eq)

lemma commit_data_eq:
  "casadi_qp_calc_dependent prob1
     (data_eq_step\<lparr>d_msg := MsgRemoved 0, d_lam := [0]\<rparr>) = Some data_eq_flip"
  by (simp add: casadi_qp_calc_dependent_def calc_dependent_update_def calc_dependent_row_def
        casadi_qp_pr_def pr_step_def casadi_qp_du_def du_step_def eval_eq)

lemma flip_data_eq:
  "casadi_qp_flip prob1 solve1 data_eq_step (- 1) 0 (- 1) 0 = Some (data_eq_flip, - 2, 0)"
proof -
  let ?d = "data_eq_step\<lparr>d_msg := MsgRemoved 0\<rparr>"
  have a: "flip_regularity prob1 data_eq_step (- 1) 0 (- 1) 0 = (data_eq_step, - 1, 0)"
    by (simp add: flip_regularity_def)
  have b: "flip_improve prob1 (data_eq_step, - 1, 0) = Some (?d, 0, 0)"
    by (simp add: flip_improve_def data_eq_step_fields du_index_data_eq)
  have l: "(d_lam data_eq_step)[0 := 0] = [0]" by (simp add: eval_eq)
  have c: "flip_commit prob1 solve1 2 (- 1) (?d, 0, 0) = Some (data_eq_flip, - 2, 0)"
    using flip_check_data_eq commit_data_eq
    by (simp add: flip_commit_def data_eq_step_fields l)
  show ?thesis
    by (simp add: casadi_qp_flip_def a b c data_eq_step_fields)
qed

theorem reset_sign_discipline_witness:
  "0 < p_dmin prob1 \<and> flags_rooms prob1 data1 \<and>
   casadi_qp_reset prob1 data1 = (0, data_eq_reset) \<and>
   sign_discipline prob1 data_eq_reset \<and> list_all (flags_row data_eq_reset) [0..<p_nz prob1]"
proof -
  have dm: "0 < p_dmin prob1" by (simp add: prob1_def)
  have rooms: "flags_rooms prob1 data1" by (simp add: flags_rooms_def eval_eq)
  from reset_sign_discipline [OF dm rooms reset_data1] dm rooms reset_data1
  show ?thesis by simp
qed

theorem take_step_sign_discipline_witness:
  "0 < p_dmin prob1 \<and>
   flags_rooms prob1 (data_eq\<lparr>d_tau := 1, d_w := [1, 0], d_iw := [- 1]\<rparr>) \<and>
   p_nz prob1 \<le> length (d_iw (data_eq\<lparr>d_tau := 1, d_w := [1, 0], d_iw := [- 1]\<rparr>)) \<and>
   sign_discipline prob1 (data_eq\<lparr>d_tau := 1, d_w := [1, 0], d_iw := [- 1]\<rparr>) \<and>
   list_all (flags_row (data_eq\<lparr>d_tau := 1, d_w := [1, 0], d_iw := [- 1]\<rparr>)) [0..<p_nz prob1] \<and>
   casadi_qp_take_step prob1 (data_eq\<lparr>d_tau := 1, d_w := [1, 0], d_iw := [- 1]\<rparr>) = data_eq_step \<and>
   sign_discipline prob1 data_eq_step \<and> list_all (flags_row data_eq_step) [0..<p_nz prob1]"
proof -
  let ?d = "data_eq\<lparr>d_tau := 1, d_w := [1, 0], d_iw := [- 1]\<rparr>"
  have dm: "0 < p_dmin prob1" by (simp add: prob1_def)
  have rooms: "flags_rooms prob1 ?d" by (simp add: flags_rooms_def eval_eq)
  have iw: "p_nz prob1 \<le> length (d_iw ?d)" by (simp add: eval_eq)
  have sd: "sign_discipline prob1 ?d" by (simp add: sign_discipline_def sign_row_def eval_eq)
  have fl: "list_all (flags_row ?d) [0..<p_nz prob1]" by (simp add: flags_row_def eval_eq)
  from take_step_sign_discipline [OF dm rooms iw sd fl] dm rooms iw sd fl step_data_eq
  show ?thesis by simp
qed

text \<open>
  C1. The sign discipline does not hold after every \<open>casadi_qp_flip\<close>. On the problem
  \<open>min x^2/2 - x\<close> subject to \<open>0 \<le> x \<le> 0\<close>, \<open>casadi_qp_reset\<close> marks the row as never
  zero and gives it the multiplier \<open>-dmin\<close>; the discipline holds after the reset, the
  update of the dependent quantities and the first step. \<open>casadi_qp_flip\<close> then takes
  its proposal from \<open>casadi_qp_du_index\<close>, which does not look at \<open>neverzero\<close>, and
  sets the multiplier of the row to zero.
\<close>

theorem flip_zeroes_neverzero_row:
  "casadi_qp_reset prob1 data1 = (0, data_eq_reset) \<and>
   casadi_qp_calc_dependent prob1 data_eq_reset = Some data_eq \<and>
   casadi_qp_take_step prob1 (data_eq\<lparr>d_tau := 1, d_w := [1, 0], d_iw := [- 1]\<rparr>) = data_eq_step \<and>
   sign_discipline prob1 data_eq_reset \<and> sign_discipline prob1 data_eq_step \<and>
   casadi_qp_flip prob1 solve1 data_eq_step (- 1) 0 (- 1) 0 = Some (data_eq_flip, - 2, 0) \<and>
   d_neverzero data_eq_flip ! 0 \<and> d_lam data_eq_flip ! 0 = 0 \<and>
   \<not> sign_discipline prob1 data_eq_flip"
proof -
  have "sign_discipline prob1 data_eq_reset" "sign_discipline prob1 data_eq_step"
    "\<not> sign_discipline prob1 data_eq_flip"
    "d_neverzero data_eq_flip ! 0" "d_lam data_eq_flip ! 0 = 0"
    by (simp_all add: sign_discipline_def sign_row_def eval_eq)
  with reset_data1 calc_data_eq_reset step_data_eq flip_data_eq show ?thesis by simp
qed


end
